theory Spec2Isabelle
  imports Complex_Main "HOL-Library.List_Lexorder"
begin

section \<open>JavaScript strings and values\<close>

text \<open>
  A JavaScript string is a sequence of UTF-16 code units; \<open>length\<close>, \<open>substring\<close>,
  \<open>indexOf\<close> and the regular expressions of \<open>index.mjs\<close> (none has the \<open>u\<close> flag) all
  count code units. A code unit is modelled by its number, a string by the list of
  its code units. Every JavaScript string is such a list (with all elements below
  \<open>65536\<close>), so a statement about all lists covers all strings.
\<close>

type_synonym jsstring = "nat list"

definition js :: "string \<Rightarrow> jsstring" where
  \<comment> \<open>an ASCII literal of the source as code units\<close>
  "js s = map of_char s"

definition is_ws :: "nat \<Rightarrow> bool" where
  \<comment> \<open>the class \<open>\s\<close> of a regular expression, which is also what \<open>trim()\<close> strips:
      WhiteSpace (TAB, VT, FF, SP, NBSP, ZWNBSP and the space separators) and
      LineTerminator (LF, CR, LS, PS)\<close>
  "is_ws c = (c \<in> {9, 10, 11, 12, 13, 32, 160, 5760, 8232, 8233, 8239, 8287, 12288, 65279}
              \<or> (8192 \<le> c \<and> c \<le> 8202))"

definition trim :: "jsstring \<Rightarrow> jsstring" where
  \<comment> \<open>\<open>s.trim()\<close>\<close>
  "trim s = rev (dropWhile is_ws (rev (dropWhile is_ws s)))"

definition substring :: "jsstring \<Rightarrow> int \<Rightarrow> int \<Rightarrow> jsstring" where
  \<comment> \<open>\<open>s.substring(a, b)\<close> for integer arguments: both are clamped to \<open>[0, length]\<close>
      and swapped when the first is the larger one\<close>
  "substring s a b =
     (let len = int (length s);
          finalStart = min (max a 0) len;
          finalEnd = min (max b 0) len;
          from = min finalStart finalEnd;
          to = max finalStart finalEnd
      in take (nat (to - from)) (drop (nat from) s))"

definition substring_from :: "jsstring \<Rightarrow> int \<Rightarrow> jsstring" where
  \<comment> \<open>\<open>s.substring(a)\<close>: a missing end is the length of the string\<close>
  "substring_from s a = substring s a (int (length s))"

definition startsWith :: "jsstring \<Rightarrow> jsstring \<Rightarrow> bool" where
  \<comment> \<open>\<open>s.startsWith(p)\<close>\<close>
  "startsWith s p = (take (length p) s = p)"

fun js_join :: "jsstring \<Rightarrow> jsstring list \<Rightarrow> jsstring" where
  \<comment> \<open>\<open>xs.join(sep)\<close> on an array of strings\<close>
  "js_join sep [] = []"
| "js_join sep [x] = x"
| "js_join sep (x # y # ys) = x @ sep @ js_join sep (y # ys)"

text \<open>
  \<open>s.split(/\s+/)\<close>: the pieces of \<open>s\<close> between the maximal runs of whitespace. A run
  at the very start or end of \<open>s\<close> leaves an empty piece there, and the empty string
  splits into one empty piece.
\<close>

function split_ws :: "jsstring \<Rightarrow> jsstring list" where
  "split_ws s =
     (case dropWhile (\<lambda>c. \<not> is_ws c) s of
        [] \<Rightarrow> [takeWhile (\<lambda>c. \<not> is_ws c) s]
      | c # rest \<Rightarrow> takeWhile (\<lambda>c. \<not> is_ws c) s # split_ws (dropWhile is_ws rest))"
  by pat_completeness auto
termination
proof (relation "measure length", goal_cases)
  case 1
  show ?case by simp
next
  case (2 s c rest)
  have "length (dropWhile is_ws rest) \<le> length rest"
    by (rule length_dropWhile_le)
  moreover have "length (c # rest) \<le> length s"
    using length_dropWhile_le [of "\<lambda>c. \<not> is_ws c" s] 2 by simp
  ultimately show ?case by simp
qed

declare split_ws.simps [simp del]

text \<open>
  The values the decoder handles: a string, or \<open>undefined\<close> (an array element or a
  property that is not there).
\<close>

datatype jsval = JUndefined | JStr jsstring

fun truthy :: "jsval \<Rightarrow> bool" where
  "truthy JUndefined = False"
| "truthy (JStr s) = (s \<noteq> [])"

definition js_or :: "jsval \<Rightarrow> jsval \<Rightarrow> jsval" where
  \<comment> \<open>\<open>a || b\<close>\<close>
  "js_or a b = (if truthy a then a else b)"

definition js_nullish :: "jsval \<Rightarrow> jsval \<Rightarrow> jsval" where
  \<comment> \<open>\<open>a ?? b\<close>\<close>
  "js_nullish a b = (case a of JUndefined \<Rightarrow> b | JStr s \<Rightarrow> JStr s)"

definition js_nth :: "jsstring list \<Rightarrow> nat \<Rightarrow> jsval" where
  \<comment> \<open>\<open>arr[i]\<close> on an array of strings, also what a destructuring pattern reads\<close>
  "js_nth arr i = (if i < length arr then JStr (arr ! i) else JUndefined)"

text \<open>
  A plain object \<open>{}\<close> with string-valued properties, as the list of its own
  properties in the order of their creation. An assignment to an existing property
  keeps its place. The key \<open>__proto__\<close> is the accessor inherited from
  \<open>Object.prototype\<close>: assigning a string to it creates no property.
\<close>

type_synonym jsobj = "(jsstring \<times> jsval) list"

fun obj_update :: "(jsstring \<times> 'a) list \<Rightarrow> jsstring \<Rightarrow> 'a \<Rightarrow> (jsstring \<times> 'a) list" where
  "obj_update [] k v = [(k, v)]"
| "obj_update ((k', v') # rest) k v =
     (if k' = k then (k, v) # rest else (k', v') # obj_update rest k v)"

definition obj_set :: "jsobj \<Rightarrow> jsstring \<Rightarrow> jsval \<Rightarrow> jsobj" where
  \<comment> \<open>\<open>obj[k] = v\<close>\<close>
  "obj_set obj k v = (if k = js ''__proto__'' then obj else obj_update obj k v)"

definition obj_get :: "jsobj \<Rightarrow> jsstring \<Rightarrow> jsval" where
  \<comment> \<open>\<open>obj[k]\<close>, for a key that names no property of \<open>Object.prototype\<close>\<close>
  "obj_get obj k = (case map_of obj k of None \<Rightarrow> JUndefined | Some v \<Rightarrow> v)"

definition field_text :: "jsval \<Rightarrow> jsstring" where
  \<comment> \<open>\<open>v === undefined || v === null ? '' : String(v)\<close>: the text of a value\<close>
  "field_text v = (case v of JStr s \<Rightarrow> s | JUndefined \<Rightarrow> [])"

section \<open>Row Decoder\<close>

text \<open>
  The body of the loop over the columns (lines 105 to 130 of \<open>index.mjs\<close>): \<open>col\<close> is
  \<open>columns[i]\<close>, \<open>value\<close> is the trimmed slice of the line.
\<close>

definition decode_column :: "jsobj \<Rightarrow> jsstring \<Rightarrow> jsstring \<Rightarrow> jsobj" where
  "decode_column obj col value =
     (if col = js ''Fed Sex Tit'' then
        (let fed = trim (substring value 0 3);
             rest = trim (substring_from value 3);
             parts = split_ws rest;
             sex = js_nth parts 0;
             titles = drop 1 parts;
             obj1 = obj_set obj (js ''Fed'') (JStr fed);
             obj2 = obj_set obj1 (js ''Sex'') (js_or sex (JStr []))
         in obj_set obj2 (js ''Title'') (js_or (JStr (js_join (js '' '') titles)) (JStr [])))
      else if col = js ''WTit OTit'' then
        (let parts = split_ws value;
             wtit = js_nth parts 0;
             otit = js_nth parts 1;
             obj1 = obj_set obj (js ''WTit'') (js_or wtit (JStr []))
         in obj_set obj1 (js ''OTit'') (js_or otit (JStr [])))
      else if startsWith col (js ''FOA AUG'') then
        (let headerParts = split_ws col;
             parts = split_ws value;
             foa = js_nth parts 0;
             gms = js_nth parts 1;
             k = js_nth parts 2;
             obj1 = obj_set obj (js ''FOA'') (js_or foa (JStr []));
             obj2 = obj_set obj1 (js ''Rating'') (js_or (js_nth headerParts 1) (JStr []));
             obj3 = obj_set obj2 (js ''Gms'') (js_or gms (JStr []))
         in obj_set obj3 (js ''K'') (js_or k (JStr [])))
      else if col = js ''B-day Flag'' then
        (let parts = split_ws value;
             bday = js_nth parts 0;
             flag = drop 1 parts;
             obj1 = obj_set obj (js ''B-day'') (js_or bday (JStr []))
         in obj_set obj1 (js ''Flag'') (js_or (JStr (js_join (js '' '') flag)) (JStr [])))
      else obj_set obj col (JStr value))"

text \<open>
  \<open>colPositions[i]\<close> as an argument of \<open>substring\<close>: an index past the end of the array
  reads \<open>undefined\<close>, which \<open>substring\<close> takes as \<open>0\<close> for its start and as the length of
  the string for its end.
\<close>

definition slice_start :: "nat list \<Rightarrow> nat \<Rightarrow> int" where
  "slice_start colPositions i = (if i < length colPositions then int (colPositions ! i) else 0)"

definition slice_end :: "nat list \<Rightarrow> nat \<Rightarrow> jsstring \<Rightarrow> int" where
  "slice_end colPositions i line =
     (if i < length colPositions then int (colPositions ! i) else int (length line))"

definition column_value :: "nat list \<Rightarrow> jsstring \<Rightarrow> nat \<Rightarrow> jsstring" where
  \<comment> \<open>\<open>line.substring(colPositions[i], colPositions[i + 1]).trim()\<close>\<close>
  "column_value colPositions line i =
     trim (substring line (slice_start colPositions i) (slice_end colPositions (i + 1) line))"

definition decode_line :: "jsstring list \<Rightarrow> nat list \<Rightarrow> jsstring \<Rightarrow> jsobj" where
  \<comment> \<open>the function mapped over \<open>fedLines\<close> (lines 100 to 133)\<close>
  "decode_line columns colPositions line =
     foldl (\<lambda>obj i. decode_column obj (columns ! i) (column_value colPositions line i))
       [] [0..<length columns]"

section \<open>Column Layout Extractor\<close>

text \<open>
  \<open>colRegex = /(\S[\S ]*?)(?=\s{2,}|$)/g\<close>. The lookahead holds where two whitespace
  characters follow or the input ends (there is no \<open>m\<close> flag). The lazy star takes
  as few characters of the class \<open>[\S ]\<close> as make the lookahead hold; where a character
  outside the class comes first, there is no match at this start.
\<close>

definition lookahead :: "jsstring \<Rightarrow> bool" where
  "lookahead s = ((case s of a # b # _ \<Rightarrow> is_ws a \<and> is_ws b | _ \<Rightarrow> False) \<or> s = [])"

fun lazy_class :: "jsstring \<Rightarrow> nat option" where
  "lazy_class [] = (if lookahead [] then Some 0 else None)"
| "lazy_class (c # cs) =
     (if lookahead (c # cs) then Some 0
      else if \<not> is_ws c \<or> c = 32 then map_option Suc (lazy_class cs)
      else None)"

fun match_here :: "jsstring \<Rightarrow> nat option" where
  \<comment> \<open>the length of the match that starts at the first character, if there is one\<close>
  "match_here [] = None"
| "match_here (c # cs) = (if is_ws c then None else map_option Suc (lazy_class cs))"

fun exec_from :: "jsstring \<Rightarrow> nat \<Rightarrow> (nat \<times> nat) option" where
  \<comment> \<open>the first start at or after index \<open>i\<close> that has a match: \<open>(match.index, length)\<close>\<close>
  "exec_from [] i = None"
| "exec_from (c # cs) i =
     (case match_here (c # cs) of
        Some n \<Rightarrow> Some (i, n)
      | None \<Rightarrow> exec_from cs (Suc i))"

definition colRegex_exec :: "jsstring \<Rightarrow> nat \<Rightarrow> (nat \<times> nat) option" where
  \<comment> \<open>\<open>colRegex.exec(header)\<close> with the regular expression's \<open>lastIndex\<close>\<close>
  "colRegex_exec header lastIndex =
     (if length header < lastIndex then None else exec_from (drop lastIndex header) lastIndex)"

lemma match_here_bounds:
  "match_here s = Some n \<Longrightarrow> 0 < n \<and> n \<le> length s"
proof -
  have lazy: "lazy_class t = Some m \<Longrightarrow> m \<le> length t" for t m
    by (induction t arbitrary: m) (auto split: if_splits)
  show "match_here s = Some n \<Longrightarrow> 0 < n \<and> n \<le> length s"
    by (cases s) (auto split: if_splits dest: lazy)
qed

lemma exec_from_bounds:
  "exec_from s i = Some (j, n) \<Longrightarrow> i \<le> j \<and> 0 < n \<and> j + n \<le> i + length s"
proof (induction s arbitrary: i)
  case Nil
  then show ?case by simp
next
  case (Cons c cs)
  show ?case
  proof (cases "match_here (c # cs)")
    case None
    with Cons.prems have "exec_from cs (Suc i) = Some (j, n)" by simp
    from Cons.IH [OF this] show ?thesis by simp
  next
    case (Some m)
    with Cons.prems have "j = i" "n = m" by simp_all
    with match_here_bounds [OF Some] show ?thesis by simp
  qed
qed

lemma colRegex_exec_bounds:
  "colRegex_exec header lastIndex = Some (j, n) \<Longrightarrow>
     lastIndex \<le> j \<and> 0 < n \<and> j + n \<le> length header"
  using exec_from_bounds [of "drop lastIndex header" lastIndex j n]
  by (auto simp: colRegex_exec_def split: if_splits)

text \<open>
  The loop of lines 94 to 97: each match pushes its trimmed text and its index, and the
  next search starts where the match ended.
\<close>

function column_matches :: "jsstring \<Rightarrow> nat \<Rightarrow> (jsstring \<times> nat) list" where
  "column_matches header lastIndex =
     (case colRegex_exec header lastIndex of
        None \<Rightarrow> []
      | Some (index, n) \<Rightarrow>
          (trim (take n (drop index header)), index) # column_matches header (index + n))"
  by pat_completeness auto
termination
proof (relation "measure (\<lambda>(header, lastIndex). Suc (length header) - lastIndex)", goal_cases)
  case 1
  show ?case by simp
next
  case (2 header lastIndex x index n)
  then have "colRegex_exec header lastIndex = Some (index, n)" by simp
  from colRegex_exec_bounds [OF this]
  have "lastIndex < index + n" "index + n \<le> length header" by auto
  then show ?case by simp
qed

declare column_matches.simps [simp del]

definition columns_of :: "jsstring \<Rightarrow> jsstring list" where
  \<comment> \<open>\<open>columns\<close> after the loop\<close>
  "columns_of header = map fst (column_matches header 0)"

definition colPositions_of :: "jsstring \<Rightarrow> nat list" where
  \<comment> \<open>\<open>colPositions\<close> after \<open>colPositions.push(header.length)\<close>\<close>
  "colPositions_of header = map snd (column_matches header 0) @ [length header]"

section \<open>Partitioner\<close>

fun indexOf_from :: "jsstring \<Rightarrow> jsstring \<Rightarrow> nat \<Rightarrow> int" where
  "indexOf_from [] pat i = (if pat = [] then int i else - 1)"
| "indexOf_from (c # cs) pat i =
     (if startsWith (c # cs) pat then int i else indexOf_from cs pat (Suc i))"

definition indexOf :: "jsstring \<Rightarrow> jsstring \<Rightarrow> int" where
  \<comment> \<open>\<open>s.indexOf(pat)\<close>: the first index where \<open>pat\<close> occurs, or \<open>-1\<close>\<close>
  "indexOf s pat = indexOf_from s pat 0"

definition fedStart :: "jsstring \<Rightarrow> int" where
  "fedStart header = indexOf header (js ''Fed'')"

definition fedEnd :: "jsstring \<Rightarrow> int" where
  "fedEnd header = fedStart header + int (length (js ''Fed''))"

definition line_fed :: "jsstring \<Rightarrow> jsstring \<Rightarrow> jsstring" where
  \<comment> \<open>\<open>line.substring(fedStart, fedEnd).trim()\<close>\<close>
  "line_fed header line = trim (substring line (fedStart header) (fedEnd header))"

text \<open>
  \<open>fedMap\<close>: the own properties of the object in the order of their creation, each an
  array of lines. A key is at most three code units long, and no property of
  \<open>Object.prototype\<close> has so short a name, so \<open>fedMap[fed]\<close> reads own properties only.
\<close>

type_synonym fedmap = "(jsstring \<times> jsstring list) list"

fun fed_push :: "fedmap \<Rightarrow> jsstring \<Rightarrow> jsstring \<Rightarrow> fedmap" where
  \<comment> \<open>\<open>if (!fedMap[fed]) fedMap[fed] = []; fedMap[fed].push(line)\<close>\<close>
  "fed_push [] fed line = [(fed, [line])]"
| "fed_push ((k, ls) # rest) fed line =
     (if k = fed then (k, ls @ [line]) # rest else (k, ls) # fed_push rest fed line)"

definition group_step :: "jsstring \<Rightarrow> fedmap \<Rightarrow> jsstring \<Rightarrow> fedmap" where
  "group_step header fedMap line =
     (let fed = line_fed header line
      in if fed = [] then fedMap else fed_push fedMap fed line)"

definition group_lines :: "jsstring \<Rightarrow> jsstring list \<Rightarrow> fedmap" where
  \<comment> \<open>the loop of lines 47 to 52\<close>
  "group_lines header dataLines = foldl (group_step header) [] dataLines"

text \<open>
  Lines 37 to 52 on \<open>lines\<close>, the non-empty lines of the text: \<open>header = lines[0]\<close> is
  \<open>undefined\<close> when there is no line, and \<open>header.indexOf\<close> then throws a TypeError.
\<close>

datatype error = DownloadFailed | NoTxtEntry | TypeError | ENOENT

definition parse_and_group :: "jsstring list \<Rightarrow> error + fedmap" where
  "parse_and_group lines =
     (case lines of
        [] \<Rightarrow> Inl TypeError
      | header # dataLines \<Rightarrow> Inr (group_lines header dataLines))"

text \<open>
  \<open>Object.keys\<close> and \<open>Object.entries\<close> list the own properties of an object with the
  array indices first, in ascending numeric order, and then the other keys in the order
  of their creation. An array index is the canonical decimal form of an integer below
  \<open>2^32 - 1\<close>.
\<close>

definition is_digit :: "nat \<Rightarrow> bool" where
  "is_digit c = (48 \<le> c \<and> c \<le> 57)"

definition digits_value :: "jsstring \<Rightarrow> nat" where
  "digits_value k = foldl (\<lambda>n c. 10 * n + (c - 48)) 0 k"

definition is_array_index :: "jsstring \<Rightarrow> bool" where
  "is_array_index k =
     (k \<noteq> [] \<and> list_all is_digit k \<and> (k = [48] \<or> hd k \<noteq> 48) \<and> digits_value k < 4294967295)"

definition own_entries :: "(jsstring \<times> 'a) list \<Rightarrow> (jsstring \<times> 'a) list" where
  "own_entries obj =
     sort_key (\<lambda>e. digits_value (fst e)) (filter (\<lambda>e. is_array_index (fst e)) obj)
     @ filter (\<lambda>e. \<not> is_array_index (fst e)) obj"

definition own_keys :: "(jsstring \<times> 'a) list \<Rightarrow> jsstring list" where
  "own_keys obj = map fst (own_entries obj)"

section \<open>Format Emitters\<close>

subsection \<open>Delimited text\<close>

definition double_quotes :: "jsstring \<Rightarrow> jsstring" where
  \<comment> \<open>\<open>val.replace(/"/g, '""')\<close>\<close>
  "double_quotes val = concat (map (\<lambda>c. if c = 34 then [34, 34] else [c]) val)"

definition csv_value :: "jsval \<Rightarrow> jsstring" where
  \<comment> \<open>the function mapped over \<open>csvColumns\<close>, applied to \<open>row[col]\<close>; \<open>join\<close> writes a
      value that is \<open>undefined\<close> as the empty string\<close>
  "csv_value v =
     (case js_nullish v (JStr []) of
        JStr val \<Rightarrow>
          (if 44 \<in> set val \<or> 34 \<in> set val \<or> 10 \<in> set val
           then [34] @ double_quotes val @ [34] else val)
      | JUndefined \<Rightarrow> [])"

definition csv_row :: "jsstring list \<Rightarrow> jsobj \<Rightarrow> jsstring" where
  "csv_row csvColumns row = js_join [44] (map (\<lambda>col. csv_value (obj_get row col)) csvColumns)"

definition csvRows :: "jsobj list \<Rightarrow> jsstring list" where
  \<comment> \<open>lines 148 to 155, for \<open>jsonData.length > 0\<close>\<close>
  "csvRows jsonData =
     (let csvColumns = own_keys (hd jsonData)
      in js_join [44] csvColumns # map (csv_row csvColumns) jsonData)"

subsection \<open>Sizes\<close>

text \<open>
  \<open>formatBytes\<close> on a byte count, the size of a file: a natural number, below \<open>2^53\<close>,
  which a double holds exactly. \<open>Math.log\<close> is the logarithm of the library on doubles,
  whose precision the language leaves to the implementation; it is not modelled here.
  The index that the code computes as \<open>Math.floor(Math.log(bytes) / Math.log(1024))\<close>
  is a parameter of the function, \<open>flog\<close>. It need not be the exact integer logarithm:
  the quotient of the two doubles can fall on an integer that the exact quotient stays
  below, as it does just under \<open>1024^5\<close>. \<open>bytes / Math.pow(1024, i)\<close> is a division by
  a power of two, exact on a double, so \<open>value\<close> is the rational number itself, and
  \<open>toFixed\<close> rounds the exact value, a tie upwards. \<open>units[i]\<close> is \<open>undefined\<close> from
  the index five on, and the template prints it as the text \<open>undefined\<close>.
\<close>

fun decimal :: "nat \<Rightarrow> jsstring" where
  \<comment> \<open>the decimal digits of a number\<close>
  "decimal n = (if n < 10 then [48 + n] else decimal (n div 10) @ [48 + n mod 10])"

declare decimal.simps [simp del]

definition toFixed :: "rat \<Rightarrow> nat \<Rightarrow> jsstring" where
  \<comment> \<open>\<open>x.toFixed(f)\<close> for \<open>0 \<le> x < 10^21\<close>\<close>
  "toFixed x f =
     (let n = nat \<lfloor>x * 10 ^ f + 1 / 2\<rfloor>;
          m = decimal n
      in if f = 0 then m
         else (let m' = (if length m \<le> f then replicate (f + 1 - length m) 48 @ m else m);
                   k = length m'
               in take (k - f) m' @ [46] @ drop (k - f) m'))"

definition units :: "jsstring list" where
  "units = [js ''B'', js ''KB'', js ''MB'', js ''GB'', js ''TB'']"

definition template_text :: "jsval \<Rightarrow> jsstring" where
  \<comment> \<open>a value inside a template literal\<close>
  "template_text v = (case v of JStr s \<Rightarrow> s | JUndefined \<Rightarrow> js ''undefined'')"

definition formatBytes :: "(nat \<Rightarrow> nat) \<Rightarrow> nat \<Rightarrow> jsstring" where
  "formatBytes flog bytes =
     (if bytes = 0 then js ''0 B''
      else (let i = flog bytes;
                value = rat_of_nat bytes / 1024 ^ i
            in toFixed value (if value \<ge> 10 \<or> i = 0 then 0 else 1)
               @ js '' '' @ template_text (js_nth units i)))"

section \<open>The run\<close>

text \<open>
  What the run does to the world outside: the files it writes, in the order of the
  writes, the table \<open>global.fedSummary\<close>, the errors of the columnar export that it
  logs with \<open>console.error\<close>, and whether the directory \<open>data\<close> exists. The progress
  lines of \<open>console.log\<close> are left out. A path is kept as its parts: the federation, the
  rating type and the kind of file.
\<close>

datatype artifact = TxtFile | TxtZip | JsonFile | JsonZip | CsvFile | CsvZip | ParquetFile

datatype path = DataFile jsstring jsstring artifact | IndexHtml

text \<open>
  An entry of the table: the number of rows and, for each file, its link (the fields
  \<open>txt\<close>, \<open>txtzip\<close>, \<open>csv\<close>, \<open>csvzip\<close>, \<open>json\<close>, \<open>jsonzip\<close> and \<open>parquet\<close> of the source)
  and its size.
\<close>

record summary_info =
  count :: nat
  txtLink :: jsstring
  txtSize :: jsstring
  txtzipLink :: jsstring
  txtzipSize :: jsstring
  csvLink :: jsstring
  csvSize :: jsstring
  csvzipLink :: jsstring
  csvzipSize :: jsstring
  jsonLink :: jsstring
  jsonSize :: jsstring
  jsonzipLink :: jsstring
  jsonzipSize :: jsstring
  parquetLink :: jsstring
  parquetSize :: jsstring

type_synonym summary = "(jsstring \<times> (jsstring \<times> summary_info) list) list"

datatype content =
    Text jsstring
  | JsonText "jsobj list"
  | ZipOf jsstring content
  | ParquetRows "jsstring list" "(jsstring \<times> jsstring) list list"
  | IndexPage "jsstring list" "(jsstring \<times> summary_info option list) list"

record world =
  files :: "(path \<times> content) list"
  fedSummary :: summary
  parquet_errors :: "(jsstring \<times> jsstring) list"
  data_dir :: bool

text \<open>
  The collaborators of the run: the download with the extraction of the text and its
  split into non-empty lines (lines 25 to 37, which throw on a response that is not ok
  and on an archive without a text file), the size a written file has on disk, the
  index \<open>Math.floor(Math.log(bytes) / Math.log(1024))\<close> of a byte count, whether some
  step of the columnar export of a group throws (the file it may leave half written is
  not recorded), and whether the directory \<open>data\<close> exists when the run starts.
  Creating the directory of a group, writing the files of a group into it and reading
  the page template are taken to succeed.
\<close>

record env =
  fetch_lines :: "jsstring \<Rightarrow> error + jsstring list"
  file_size :: "content \<Rightarrow> nat"
  floor_log :: "nat \<Rightarrow> nat"
  parquet_fails :: "jsstring \<Rightarrow> jsstring \<Rightarrow> bool"
  data_exists :: bool

definition write_file :: "world \<Rightarrow> path \<Rightarrow> content \<Rightarrow> world" where
  "write_file w p c = w\<lparr>files := files w @ [(p, c)]\<rparr>"

definition summary_set :: "summary \<Rightarrow> jsstring \<Rightarrow> jsstring \<Rightarrow> summary_info \<Rightarrow> summary" where
  \<comment> \<open>\<open>if (!global.fedSummary[fed]) global.fedSummary[fed] = {};
      global.fedSummary[fed][ratingType] = info\<close>\<close>
  "summary_set s fed ratingType info =
     (let inner = (case map_of s fed of None \<Rightarrow> [] | Some m \<Rightarrow> m)
      in obj_update s fed (obj_update inner ratingType info))"

definition leaves_data :: "jsstring \<Rightarrow> bool" where
  \<comment> \<open>\<open>path.join('data', fed, ratingType)\<close> lies outside \<open>data\<close>: the key has \<open>..\<close>
      as a segment (with the separator of POSIX; a key has at most three code units)\<close>
  "leaves_data fed = (fed = js ''..'' \<or> fed = js ''../'' \<or> fed = js ''/..'')"

definition mkdir_group :: "world \<Rightarrow> jsstring \<Rightarrow> world" where
  \<comment> \<open>\<open>fs.mkdirSync(dir, { recursive: true })\<close> makes the directory of the group and
      the directories above it\<close>
  "mkdir_group w fed = w\<lparr>data_dir := data_dir w \<or> \<not> leaves_data fed\<rparr>"

definition link :: "jsstring \<Rightarrow> jsstring \<Rightarrow> jsstring \<Rightarrow> jsstring" where
  \<comment> \<open>\<open>`${fed}/${ratingType}/${ratingType}.ext`\<close>\<close>
  "link fed ratingType ext = fed @ js ''/'' @ ratingType @ js ''/'' @ ratingType @ ext"

definition export_parquet ::
  "env \<Rightarrow> jsstring \<Rightarrow> jsstring \<Rightarrow> jsstring list \<Rightarrow> jsobj list \<Rightarrow> world \<Rightarrow> world \<times> jsstring" where
  \<comment> \<open>lines 166 to 189: the \<open>try\<close> block and its \<open>catch\<close>; the second component is
      \<open>parquetSize\<close>\<close>
  "export_parquet env fed ratingType csvColumns jsonData w =
     (if parquet_fails env fed ratingType
      then (w\<lparr>parquet_errors := parquet_errors w @ [(fed, ratingType)]\<rparr>, js ''0 B'')
      else (let strRows = map (\<lambda>row. map (\<lambda>col. (col, field_text (obj_get row col))) csvColumns)
                            jsonData;
                data = ParquetRows csvColumns strRows
            in (write_file w (DataFile fed ratingType ParquetFile) data,
                formatBytes (floor_log env) (file_size env data))))"

definition process_group ::
  "env \<Rightarrow> jsstring \<Rightarrow> jsstring \<Rightarrow> world \<Rightarrow> jsstring \<times> jsstring list \<Rightarrow> world" where
  \<comment> \<open>the body of the loop of lines 60 to 215\<close>
  "process_group env ratingType header w entry =
     (let fed = fst entry;
          fedLines = snd entry;
          w0 = mkdir_group w fed;
          txtData = Text (js_join [10] (header # fedLines));
          w1 = write_file w0 (DataFile fed ratingType TxtFile) txtData;
          txtSize' = formatBytes (floor_log env) (file_size env txtData);
          txtZipData = ZipOf (ratingType @ js ''.txt'') txtData;
          w2 = write_file w1 (DataFile fed ratingType TxtZip) txtZipData;
          txtZipSize' = formatBytes (floor_log env) (file_size env txtZipData);
          columns = columns_of header;
          colPositions = colPositions_of header;
          jsonData = map (decode_line columns colPositions) fedLines;
          jsonData' = JsonText jsonData;
          w3 = write_file w2 (DataFile fed ratingType JsonFile) jsonData';
          jsonSize' = formatBytes (floor_log env) (file_size env jsonData');
          jsonZipData = ZipOf (ratingType @ js ''.json'') jsonData';
          w4 = write_file w3 (DataFile fed ratingType JsonZip) jsonZipData;
          jsonZipSize' = formatBytes (floor_log env) (file_size env jsonZipData);
          (w7, csvSize', csvZipSize', parquetSize') =
            (if jsonData \<noteq> [] then
               (let csvColumns = own_keys (hd jsonData);
                    csvData = Text (js_join [10] (csvRows jsonData));
                    w5 = write_file w4 (DataFile fed ratingType CsvFile) csvData;
                    csvZipData = ZipOf (ratingType @ js ''.csv'') csvData;
                    w6 = write_file w5 (DataFile fed ratingType CsvZip) csvZipData;
                    (w7, parquetSize') = export_parquet env fed ratingType csvColumns jsonData w6
                in (w7, formatBytes (floor_log env) (file_size env csvData),
                    formatBytes (floor_log env) (file_size env csvZipData), parquetSize'))
             else (w4, js ''0 B'', js ''0 B'', js ''0 B''))
      in w7\<lparr>fedSummary := summary_set (fedSummary w7) fed ratingType
           \<lparr>count = length jsonData,
            txtLink = link fed ratingType (js ''.txt''), txtSize = txtSize',
            txtzipLink = link fed ratingType (js ''.txt.zip''), txtzipSize = txtZipSize',
            csvLink = link fed ratingType (js ''.csv''), csvSize = csvSize',
            csvzipLink = link fed ratingType (js ''.csv.zip''), csvzipSize = csvZipSize',
            jsonLink = link fed ratingType (js ''.json''), jsonSize = jsonSize',
            jsonzipLink = link fed ratingType (js ''.json.zip''), jsonzipSize = jsonZipSize',
            parquetLink = link fed ratingType (js ''.parquet''), parquetSize = parquetSize'\<rparr>\<rparr>)"

definition processFideRatings :: "env \<Rightarrow> jsstring \<Rightarrow> jsstring \<Rightarrow> world \<Rightarrow> error + world" where
  "processFideRatings env url ratingType w =
     (case fetch_lines env url of
        Inl e \<Rightarrow> Inl e
      | Inr lines \<Rightarrow>
          (case parse_and_group lines of
             Inl e \<Rightarrow> Inl e
           | Inr fedMap \<Rightarrow>
               Inr (foldl (process_group env ratingType (hd lines)) w (own_entries fedMap))))"

definition ratingTypes :: "jsstring list" where
  "ratingTypes = [js ''standard'', js ''rapid'', js ''blitz'']"

definition index_federations :: "summary \<Rightarrow> (jsstring \<times> summary_info option list) list" where
  \<comment> \<open>\<open>Object.keys(summary).sort().map(...)\<close>; the default order of \<open>sort\<close> on strings
      compares code units, which is the lexicographic order of the lists\<close>
  "index_federations s =
     map (\<lambda>fed. (fed, map (\<lambda>rt. map_of (case map_of s fed of None \<Rightarrow> [] | Some m \<Rightarrow> m) rt)
                          ratingTypes))
       (sort (own_keys s))"

definition generateIndexHtml :: "world \<Rightarrow> error + world" where
  \<comment> \<open>\<open>fs.writeFileSync(path.join('data', 'index.html'), html)\<close> makes no directory:
      it throws where \<open>data\<close> does not exist\<close>
  "generateIndexHtml w =
     (if data_dir w
      then Inr (write_file w IndexHtml (IndexPage ratingTypes (index_federations (fedSummary w))))
      else Inl ENOENT)"

definition ratingSources :: "(jsstring \<times> jsstring) list" where
  "ratingSources =
     [(js ''http://ratings.fide.com/download/standard_rating_list.zip'', js ''standard''),
      (js ''http://ratings.fide.com/download/rapid_rating_list.zip'', js ''rapid''),
      (js ''http://ratings.fide.com/download/blitz_rating_list.zip'', js ''blitz'')]"

fun run_sources :: "env \<Rightarrow> (jsstring \<times> jsstring) list \<Rightarrow> world \<Rightarrow> error + world" where
  \<comment> \<open>the loop of \<open>main\<close>: an error of one source ends the run\<close>
  "run_sources env [] w = Inr w"
| "run_sources env ((url, ratingType) # rest) w =
     (case processFideRatings env url ratingType w of
        Inl e \<Rightarrow> Inl e
      | Inr w' \<Rightarrow> run_sources env rest w')"

definition initial_world :: "env \<Rightarrow> world" where
  "initial_world env =
     \<lparr>files = [], fedSummary = [], parquet_errors = [], data_dir = data_exists env\<rparr>"

definition main :: "env \<Rightarrow> error + world" where
  "main env =
     (case run_sources env ratingSources (initial_world env) of
        Inl e \<Rightarrow> Inl e
      | Inr w \<Rightarrow> generateIndexHtml w)"

section \<open>Notions of the specification\<close>

text \<open>
  The whitespace-separated tokens of a string, as the specification speaks of them:
  the maximal runs of characters that are not whitespace, from left to right.
\<close>

function ws_tokens :: "jsstring \<Rightarrow> jsstring list" where
  "ws_tokens s =
     (if dropWhile is_ws s = [] then []
      else takeWhile (\<lambda>c. \<not> is_ws c) (dropWhile is_ws s)
           # ws_tokens (dropWhile (\<lambda>c. \<not> is_ws c) (dropWhile is_ws s)))"
  by pat_completeness auto
termination
proof (relation "measure length", goal_cases)
  case 1
  show ?case by simp
next
  case (2 s)
  show ?case
  proof (cases "dropWhile is_ws s")
    case Nil
    with 2 show ?thesis by simp
  next
    case (Cons a l)
    have "\<not> is_ws a"
      using hd_dropWhile [OF 2] unfolding Cons by simp
    then have "dropWhile (\<lambda>c. \<not> is_ws c) (a # l) = dropWhile (\<lambda>c. \<not> is_ws c) l"
      by simp
    moreover have "length (dropWhile (\<lambda>c. \<not> is_ws c) l) \<le> length l"
      by (rule length_dropWhile_le)
    moreover have "length (a # l) \<le> length s"
      using length_dropWhile_le [of is_ws s] unfolding Cons .
    ultimately show ?thesis unfolding Cons by simp
  qed
qed

declare ws_tokens.simps [simp del]

definition token_at :: "jsstring list \<Rightarrow> nat \<Rightarrow> jsstring" where
  \<comment> \<open>the token at a position, the empty string where there is none\<close>
  "token_at ts i = (if i < length ts then ts ! i else [])"

fun is_str :: "jsval \<Rightarrow> bool" where
  "is_str (JStr s) = True"
| "is_str JUndefined = False"

definition all_strings :: "jsobj \<Rightarrow> bool" where
  "all_strings obj = (\<forall>e \<in> set obj. is_str (snd e))"

definition occurs_at :: "jsstring \<Rightarrow> jsstring \<Rightarrow> nat \<Rightarrow> bool" where
  \<comment> \<open>the text \<open>pat\<close> stands in \<open>s\<close> at offset \<open>p\<close>\<close>
  "occurs_at pat s p = (take (length pat) (drop p s) = pat)"

text \<open>
  Reading a row of delimited text back, as the round trip of the specification has it
  (the repository has no reader of its own): the row is split at the commas that stand
  outside quotes; a field that starts with a quote runs to its closing quote, and two
  quotes inside it are one quote character.
\<close>

datatype csv_state = FieldStart | Unquoted | Quoted | QuoteSeen

fun csv_resplit_from :: "csv_state \<Rightarrow> jsstring \<Rightarrow> jsstring \<Rightarrow> jsstring list" where
  "csv_resplit_from st cur [] = [cur]"
| "csv_resplit_from FieldStart cur (c # cs) =
     (if c = 34 then csv_resplit_from Quoted cur cs
      else if c = 44 then cur # csv_resplit_from FieldStart [] cs
      else csv_resplit_from Unquoted (cur @ [c]) cs)"
| "csv_resplit_from Unquoted cur (c # cs) =
     (if c = 44 then cur # csv_resplit_from FieldStart [] cs
      else csv_resplit_from Unquoted (cur @ [c]) cs)"
| "csv_resplit_from Quoted cur (c # cs) =
     (if c = 34 then csv_resplit_from QuoteSeen cur cs
      else csv_resplit_from Quoted (cur @ [c]) cs)"
| "csv_resplit_from QuoteSeen cur (c # cs) =
     (if c = 34 then csv_resplit_from Quoted (cur @ [34]) cs
      else if c = 44 then cur # csv_resplit_from FieldStart [] cs
      else csv_resplit_from Unquoted (cur @ [c]) cs)"

definition csv_resplit :: "jsstring \<Rightarrow> jsstring list" where
  "csv_resplit row = csv_resplit_from FieldStart [] row"

text \<open>
  The exact integer logarithm to the base 1024, the index of the largest power of 1024
  that is not above a count.
\<close>

fun log1024 :: "nat \<Rightarrow> nat" where
  "log1024 n = (if n < 1024 then 0 else Suc (log1024 (n div 1024)))"

declare log1024.simps [simp del]





text \<open>
  A world with everything that belongs to the columnar export taken out: its files, its
  logged errors, and the size it leaves in the entries of the table (also where the
  listing page shows it).
\<close>

fun is_parquet :: "path \<Rightarrow> bool" where
  "is_parquet (DataFile fed rt a) = (a = ParquetFile)"
| "is_parquet IndexHtml = False"

definition reset_parquetSize :: "summary_info \<Rightarrow> summary_info" where
  "reset_parquetSize i = i\<lparr>parquetSize := js ''0 B''\<rparr>"

fun strip_content :: "content \<Rightarrow> content" where
  "strip_content (IndexPage rts feds) =
     IndexPage rts (map (\<lambda>e. (fst e, map (map_option reset_parquetSize) (snd e))) feds)"
| "strip_content (Text t) = Text t"
| "strip_content (JsonText d) = JsonText d"
| "strip_content (ZipOf n c) = ZipOf n c"
| "strip_content (ParquetRows cols rows) = ParquetRows cols rows"

definition without_parquet :: "world \<Rightarrow> world" where
  "without_parquet w =
     \<lparr>files = map (\<lambda>f. (fst f, strip_content (snd f)))
                (filter (\<lambda>f. \<not> is_parquet (fst f)) (files w)),
      fedSummary = map (\<lambda>e. (fst e, map (\<lambda>i. (fst i, reset_parquetSize (snd i))) (snd e)))
                     (fedSummary w),
      parquet_errors = [],
      data_dir = data_dir w\<rparr>"

text \<open>
  The files of a group other than the columnar one, in the order in which the loop
  writes them, and all the files of a group: the columnar file is written last, where
  its export does not fail.
\<close>

definition group_files :: "jsstring \<Rightarrow> jsstring \<Rightarrow> path list" where
  "group_files fed rt =
     [DataFile fed rt TxtFile, DataFile fed rt TxtZip, DataFile fed rt JsonFile,
      DataFile fed rt JsonZip, DataFile fed rt CsvFile, DataFile fed rt CsvZip]"

definition group_paths :: "env \<Rightarrow> jsstring \<Rightarrow> jsstring \<Rightarrow> path list" where
  "group_paths env fed rt =
     group_files fed rt @ (if parquet_fails env fed rt then [] else [DataFile fed rt ParquetFile])"

text \<open>
  The entry of a group and a rating type in the table, \<open>summary[fed][rt]\<close>.
\<close>

definition summary_entry :: "summary \<Rightarrow> jsstring \<Rightarrow> jsstring \<Rightarrow> summary_info option" where
  "summary_entry s fed rt = (case map_of s fed of None \<Rightarrow> None | Some m \<Rightarrow> map_of m rt)"

text \<open>
  A group of \<open>n\<close> lines has been processed in a world: its text, JSON and delimited files
  and their archives are there, and the table has its entry, with the number of its
  rows. Where the columnar export of the group failed, the failure is logged and the
  columnar size of the entry is \<open>0 B\<close>; where it did not, the columnar file is there.
\<close>

definition group_done :: "bool \<Rightarrow> world \<Rightarrow> jsstring \<Rightarrow> jsstring \<Rightarrow> nat \<Rightarrow> bool" where
  "group_done failed w fed rt n =
     (set (group_files fed rt) \<subseteq> fst ` set (files w)
      \<and> (case summary_entry (fedSummary w) fed rt of
           None \<Rightarrow> False
         | Some info \<Rightarrow>
             count info = n
             \<and> (if failed then parquetSize info = js ''0 B'' \<and> (fed, rt) \<in> set (parquet_errors w)
                else DataFile fed rt ParquetFile \<in> fst ` set (files w))))"

text \<open>
  Every download of the run gives a text with a header line; and the directory \<open>data\<close>
  exists when the listing page is written: it was there from the start, or the
  downloads have a group whose directory lies in it.
\<close>

definition has_header :: "error + jsstring list \<Rightarrow> bool" where
  "has_header r = (case r of Inl e \<Rightarrow> False | Inr ls \<Rightarrow> ls \<noteq> [])"

definition downloads_ok :: "env \<Rightarrow> bool" where
  "downloads_ok env = (\<forall>src \<in> set ratingSources. has_header (fetch_lines env (fst src)))"

definition keeps_data :: "error + jsstring list \<Rightarrow> bool" where
  "keeps_data r =
     (case r of
        Inl e \<Rightarrow> False
      | Inr ls \<Rightarrow> ls \<noteq> [] \<and> (\<exists>e \<in> set (group_lines (hd ls) (tl ls)). \<not> leaves_data (fst e)))"

definition data_made :: "env \<Rightarrow> bool" where
  "data_made env =
     (data_exists env \<or> (\<exists>src \<in> set ratingSources. keeps_data (fetch_lines env (fst src))))"

text \<open>
  The order in which \<open>Object.entries\<close> lists keys that were created in the order \<open>ks\<close>:
  the array indices in ascending numeric order, then the other keys as they were
  created.
\<close>

definition entries_order :: "jsstring list \<Rightarrow> jsstring list" where
  "entries_order ks =
     sort_key digits_value (filter is_array_index ks) @ filter (\<lambda>k. \<not> is_array_index k) ks"

text \<open>
  The elements of a list in the order of their first appearance.
\<close>

fun first_appearances :: "'a list \<Rightarrow> 'a list" where
  "first_appearances [] = []"
| "first_appearances (x # xs) = x # filter (\<lambda>y. y \<noteq> x) (first_appearances xs)"

text \<open>
  The segmentation of the specification: a run of two or more consecutive spaces is a
  separator, and the tokens are the maximal pieces of the header between separators.
  \<open>spec_token\<close> is the longest prefix before the next separator, \<open>spec_tokens\<close> the
  tokens from left to right.
\<close>

definition only_space_ws :: "jsstring \<Rightarrow> bool" where
  "only_space_ws s = (\<forall>c \<in> set s. is_ws c \<longrightarrow> c = 32)"

fun has_separator :: "jsstring \<Rightarrow> bool" where
  "has_separator (a # b # r) = ((a = 32 \<and> b = 32) \<or> has_separator (b # r))"
| "has_separator s = False"

fun spec_token :: "jsstring \<Rightarrow> jsstring" where
  "spec_token [] = []"
| "spec_token [c] = [c]"
| "spec_token (a # b # r) = (if a = 32 \<and> b = 32 then [] else a # spec_token (b # r))"

lemma spec_token_prefix: "take (length (spec_token s)) s = spec_token s"
  by (induction s rule: spec_token.induct) auto

lemma spec_token_length: "length (spec_token s) \<le> length s"
  by (induction s rule: spec_token.induct) auto

lemma spec_token_rest:
  "drop (length (spec_token s)) s = [] \<or> (\<exists>r. drop (length (spec_token s)) s = 32 # 32 # r)"
  by (induction s rule: spec_token.induct) auto

lemma spec_token_Nil_iff: "spec_token s = [] \<longleftrightarrow> s = [] \<or> (\<exists>r. s = 32 # 32 # r)"
  by (induction s rule: spec_token.induct) auto

function spec_tokens :: "jsstring \<Rightarrow> jsstring list" where
  "spec_tokens s =
     (if s = [] then []
      else if spec_token s = [] then spec_tokens (dropWhile (\<lambda>c. c = 32) s)
      else spec_token s # spec_tokens (drop (length (spec_token s)) s))"
  by pat_completeness auto
termination
proof (relation "measure length", goal_cases)
  case 1
  show ?case by simp
next
  case (2 s)
  then obtain r where "s = 32 # 32 # r" by (auto simp: spec_token_Nil_iff)
  then show ?case using length_dropWhile_le [of "\<lambda>c. c = 32" r] by simp
next
  case (3 s)
  then have "0 < length (spec_token s)" "s \<noteq> []" by simp_all
  then show ?case by simp
qed

declare spec_tokens.simps [simp del]

section \<open>Properties of the Row Decoder\<close>

lemma ws_tokens_Nil [simp]: "ws_tokens [] = []"
  by (subst ws_tokens.simps) simp

lemma ws_tokens_dropWhile: "ws_tokens (dropWhile is_ws s) = ws_tokens s"
  by (subst ws_tokens.simps, subst (2) ws_tokens.simps) simp

lemma ws_tokens_ws_Cons: "is_ws c \<Longrightarrow> ws_tokens (c # s) = ws_tokens s"
  using ws_tokens_dropWhile [of "c # s"] ws_tokens_dropWhile [of s] by simp

lemma ws_tokens_unfold:
  assumes "s \<noteq> []" "\<not> is_ws (hd s)"
  shows "ws_tokens s = takeWhile (\<lambda>c. \<not> is_ws c) s # ws_tokens (dropWhile (\<lambda>c. \<not> is_ws c) s)"
proof -
  from assms have "dropWhile is_ws s = s" by (cases s) auto
  with assms(1) show ?thesis by (subst ws_tokens.simps) simp
qed

lemma split_ws_Nil [simp]: "split_ws [] = [[]]"
  by (subst split_ws.simps) simp

lemma split_ws_tokens:
  "s \<noteq> [] \<Longrightarrow> \<not> is_ws (hd s) \<Longrightarrow> \<not> is_ws (last s) \<Longrightarrow> split_ws s = ws_tokens s"
proof (induction s rule: split_ws.induct)
  case (1 s)
  let ?nw = "\<lambda>c. \<not> is_ws c"
  note unf = ws_tokens_unfold [OF 1(2,3)]
  show ?case
  proof (cases "dropWhile ?nw s")
    case Nil
    then show ?thesis using unf by (subst split_ws.simps) (simp del: dropWhile_eq_Nil_conv)
  next
    case (Cons c rest)
    then have wsc: "is_ws c"
      using hd_dropWhile [of ?nw s] by (metis list.sel(1) list.distinct(1))
    have s_eq: "s = takeWhile ?nw s @ c # rest"
      using Cons by (metis takeWhile_dropWhile_id)
    let ?r = "dropWhile is_ws rest"
    have last_s: "last s = last (c # rest)"
      using s_eq by (metis last_appendR list.distinct(1))
    have "\<exists>x \<in> set rest. \<not> is_ws x"
    proof (rule ccontr)
      assume "\<not> ?thesis"
      then have "\<forall>x \<in> set (c # rest). is_ws x" using wsc by simp
      then have "is_ws (last (c # rest))" using last_in_set [of "c # rest"] by blast
      with last_s 1(4) show False by simp
    qed
    then have rne: "?r \<noteq> []" by (simp add: dropWhile_eq_Nil_conv)
    then have hd_r: "\<not> is_ws (hd ?r)" using hd_dropWhile [of is_ws rest] by simp
    have "rest = takeWhile is_ws rest @ ?r" by simp
    then have "last rest = last ?r" using rne by (metis last_appendR)
    moreover have "rest \<noteq> []" using rne by auto
    ultimately have last_r: "\<not> is_ws (last ?r)" using last_s 1(4) by simp
    have IH: "split_ws ?r = ws_tokens ?r"
      using 1(1) [OF Cons rne hd_r last_r] .
    have "ws_tokens (c # rest) = ws_tokens ?r"
      using wsc by (simp add: ws_tokens_ws_Cons ws_tokens_dropWhile)
    then have "ws_tokens s = takeWhile ?nw s # ws_tokens ?r"
      using unf Cons by simp
    moreover have "split_ws s = takeWhile ?nw s # split_ws ?r"
      using Cons by (subst split_ws.simps) simp
    ultimately show ?thesis using IH by (simp only:)
  qed
qed

lemma trim_Nil_or: "trim s = [] \<or> (\<not> is_ws (hd (trim s)) \<and> \<not> is_ws (last (trim s)))"
proof (cases "trim s = []")
  case True then show ?thesis by simp
next
  case False
  let ?d = "dropWhile is_ws s"
  let ?e = "dropWhile is_ws (rev ?d)"
  have e: "?e \<noteq> []" using False by (simp add: trim_def)
  then have "\<not> is_ws (hd ?e)" using hd_dropWhile [of is_ws "rev ?d"] by simp
  then have l: "\<not> is_ws (last (trim s))" using e by (simp add: trim_def last_rev)
  have dne: "?d \<noteq> []"
  proof
    assume "?d = []"
    then have "?e = []" by (simp del: dropWhile_eq_Nil_conv)
    with e show False by simp
  qed
  then have hd_d: "\<not> is_ws (hd ?d)" using hd_dropWhile [of is_ws s] by simp
  have "rev ?d = takeWhile is_ws (rev ?d) @ ?e" by simp
  then have "?d = rev ?e @ rev (takeWhile is_ws (rev ?d))" by (metis rev_append rev_rev_ident)
  then have "hd ?d = hd (rev ?e)" using e by (metis hd_append2 rev_is_Nil_conv)
  then have "\<not> is_ws (hd (trim s))" using hd_d by (simp add: trim_def)
  with l show ?thesis by simp
qed

lemma split_ws_trim:
  "split_ws (trim s) = (if trim s = [] then [[]] else ws_tokens (trim s))"
proof (cases "trim s = []")
  case True
  then show ?thesis by simp
next
  case False
  with trim_Nil_or [of s] have "\<not> is_ws (hd (trim s))" "\<not> is_ws (last (trim s))"
    by blast+
  with False have "split_ws (trim s) = ws_tokens (trim s)"
    by (rule split_ws_tokens)
  with False show ?thesis by simp
qed

lemma substring_0: "substring s 0 (int n) = take n s"
  by (simp add: substring_def Let_def min_def max_def)

lemma substring_from_nat: "substring_from s (int n) = drop n s"
  by (simp add: substring_from_def substring_def Let_def min_def max_def)

lemma map_of_obj_update: "map_of (obj_update obj k v) = (map_of obj)(k \<mapsto> v)"
  by (induction obj k v rule: obj_update.induct) auto

lemma obj_get_set_same:
  "k \<noteq> js ''__proto__'' \<Longrightarrow> obj_get (obj_set obj k v) k = v"
  by (simp add: obj_get_def obj_set_def map_of_obj_update)

lemma obj_get_set_other:
  "k' \<noteq> k \<Longrightarrow> obj_get (obj_set obj k v) k' = obj_get obj k'"
  by (simp add: obj_get_def obj_set_def map_of_obj_update)

lemma js_or_nth_split_trim:
  "js_or (js_nth (split_ws (trim w)) i) (JStr []) = JStr (token_at (ws_tokens (trim w)) i)"
  by (cases "trim w = []")
     (auto simp: split_ws_trim js_or_def js_nth_def token_at_def)

lemma drop_1_split_trim:
  "drop 1 (split_ws (trim w)) = tl (ws_tokens (trim w))"
  by (cases "trim w = []") (auto simp: split_ws_trim drop_Suc)

lemma js_or_empty: "js_or (JStr s) (JStr []) = JStr s"
  by (simp add: js_or_def)

lemma fed_sex_tit_fields:
  fixes v :: jsstring and obj :: jsobj
  defines "rec \<equiv> decode_column obj (js ''Fed Sex Tit'') v"
  defines "rest \<equiv> ws_tokens (trim (drop 3 v))"
  shows "obj_get rec (js ''Fed'') = JStr (trim (take 3 v))"
    and "obj_get rec (js ''Sex'') = JStr (token_at rest 0)"
    and "obj_get rec (js ''Title'') = JStr (js_join (js '' '') (tl rest))"
proof -
  have s0: "substring v 0 3 = take 3 v" using substring_0 [of v 3] by simp
  have s3: "substring_from v 3 = drop 3 v" using substring_from_nat [of v 3] by simp
  have neq: "js ''Fed'' \<noteq> js ''Sex''" "js ''Fed'' \<noteq> js ''Title''" "js ''Sex'' \<noteq> js ''Title''"
    "js ''Fed'' \<noteq> js ''__proto__''" "js ''Sex'' \<noteq> js ''__proto__''" "js ''Title'' \<noteq> js ''__proto__''"
    by (simp_all add: js_def)
  have rec: "rec = obj_set (obj_set (obj_set obj (js ''Fed'') (JStr (trim (take 3 v))))
      (js ''Sex'') (JStr (token_at rest 0))) (js ''Title'') (JStr (js_join (js '' '') (tl rest)))"
    unfolding rec_def rest_def decode_column_def
    by (simp only: simp_thms if_True Let_def s0 s3 js_or_nth_split_trim drop_1_split_trim js_or_empty)
  show "obj_get rec (js ''Fed'') = JStr (trim (take 3 v))"
    unfolding rec using neq by (simp add: obj_get_set_same obj_get_set_other)
  show "obj_get rec (js ''Sex'') = JStr (token_at rest 0)"
    unfolding rec using neq by (simp add: obj_get_set_same obj_get_set_other)
  show "obj_get rec (js ''Title'') = JStr (js_join (js '' '') (tl rest))"
    unfolding rec using neq by (simp add: obj_get_set_same obj_get_set_other)
qed


lemma split_ws_hd: "\<exists>rest. split_ws s = takeWhile (\<lambda>c. \<not> is_ws c) s # rest"
  by (subst split_ws.simps) (simp split: list.split)

lemma startsWith_FOA_AUG:
  assumes "startsWith col (js ''FOA AUG'')"
  shows "\<exists>r. col = [70, 79, 65, 32, 65, 85, 71] @ r"
proof -
  have "take (length (js ''FOA AUG'')) col = js ''FOA AUG''"
    using assms by (simp only: startsWith_def)
  then obtain r where "col = js ''FOA AUG'' @ r"
    by (metis append_take_drop_id)
  then show ?thesis by (simp add: js_def)
qed

lemma foa_header_part:
  assumes "startsWith col (js ''FOA AUG'')"
  shows "js_or (js_nth (split_ws col) 1) (JStr []) = JStr (token_at (ws_tokens col) 1)"
proof -
  let ?nw = "\<lambda>c. \<not> is_ws c"
  obtain r where col: "col = [70, 79, 65, 32, 65, 85, 71] @ r"
    using startsWith_FOA_AUG [OF assms] by blast
  define t where "t = [65, 85, 71] @ takeWhile ?nw r"
  obtain rest where rest: "split_ws ([65, 85, 71] @ r) = t # rest"
    using split_ws_hd [of "[65, 85, 71] @ r"] by (auto simp: t_def is_ws_def)
  have "split_ws col = [70, 79, 65] # split_ws ([65, 85, 71] @ r)"
    unfolding col by (subst split_ws.simps) (simp add: is_ws_def)
  then have l: "js_nth (split_ws col) 1 = JStr t"
    using rest by (simp add: js_nth_def)
  have "ws_tokens col = [70, 79, 65] # ws_tokens ([32, 65, 85, 71] @ r)"
    unfolding col by (subst ws_tokens.simps) (simp add: is_ws_def)
  also have "ws_tokens ([32, 65, 85, 71] @ r) = ws_tokens ([65, 85, 71] @ r)"
    using ws_tokens_ws_Cons [of 32 "[65, 85, 71] @ r"] by (simp add: is_ws_def)
  also have "ws_tokens ([65, 85, 71] @ r) = t # ws_tokens (dropWhile ?nw r)"
    unfolding t_def by (subst ws_tokens.simps) (simp add: is_ws_def)
  finally have "token_at (ws_tokens col) 1 = t"
    by (simp add: token_at_def)
  with l show ?thesis by (simp add: js_or_def)
qed

lemma foa_aug_fields:
  fixes w col :: jsstring and obj :: jsobj
  assumes foa: "startsWith col (js ''FOA AUG'')"
  defines "rec \<equiv> decode_column obj col (trim w)"
  defines "ts \<equiv> ws_tokens (trim w)"
  shows "obj_get rec (js ''FOA'') = JStr (token_at ts 0)"
    and "obj_get rec (js ''Gms'') = JStr (token_at ts 1)"
    and "obj_get rec (js ''K'') = JStr (token_at ts 2)"
    and "obj_get rec (js ''Rating'') = JStr (token_at (ws_tokens col) 1)"
proof -
  obtain r where "col = [70, 79, 65, 32, 65, 85, 71] @ r"
    using startsWith_FOA_AUG [OF foa] by blast
  then have c1: "col \<noteq> js ''Fed Sex Tit''" and c2: "col \<noteq> js ''WTit OTit''"
    by (simp_all add: js_def)
  have neq: "js ''FOA'' \<noteq> js ''Rating''" "js ''FOA'' \<noteq> js ''Gms''" "js ''FOA'' \<noteq> js ''K''"
    "js ''Rating'' \<noteq> js ''Gms''" "js ''Rating'' \<noteq> js ''K''" "js ''Gms'' \<noteq> js ''K''"
    "js ''FOA'' \<noteq> js ''__proto__''" "js ''Rating'' \<noteq> js ''__proto__''"
    "js ''Gms'' \<noteq> js ''__proto__''" "js ''K'' \<noteq> js ''__proto__''"
    by (simp_all add: js_def)
  have rec: "rec = obj_set (obj_set (obj_set (obj_set obj (js ''FOA'') (JStr (token_at ts 0)))
      (js ''Rating'') (JStr (token_at (ws_tokens col) 1)))
      (js ''Gms'') (JStr (token_at ts 1))) (js ''K'') (JStr (token_at ts 2))"
    unfolding rec_def ts_def decode_column_def
    using c1 c2 foa
    by (simp only: simp_thms if_True if_False Let_def js_or_nth_split_trim foa_header_part)
  show "obj_get rec (js ''FOA'') = JStr (token_at ts 0)"
    unfolding rec using neq by (simp add: obj_get_set_same obj_get_set_other)
  show "obj_get rec (js ''Gms'') = JStr (token_at ts 1)"
    unfolding rec using neq by (simp add: obj_get_set_same obj_get_set_other)
  show "obj_get rec (js ''K'') = JStr (token_at ts 2)"
    unfolding rec using neq by (simp add: obj_get_set_same obj_get_set_other)
  show "obj_get rec (js ''Rating'') = JStr (token_at (ws_tokens col) 1)"
    unfolding rec using neq by (simp add: obj_get_set_same obj_get_set_other)
qed


lemma obj_update_subset: "set (obj_update obj k v) \<subseteq> insert (k, v) (set obj)"
  by (induction obj k v rule: obj_update.induct) auto

lemma obj_set_strings:
  "all_strings obj \<Longrightarrow> is_str v \<Longrightarrow> all_strings (obj_set obj k v)"
  using obj_update_subset [of obj k v] by (auto simp: obj_set_def all_strings_def)

lemma js_or_is_str: "is_str (js_or a (JStr s))"
  by (cases a) (simp_all add: js_or_def)

lemma decode_column_strings:
  "all_strings obj \<Longrightarrow> all_strings (decode_column obj col v)"
  by (simp add: decode_column_def Let_def obj_set_strings js_or_is_str)

lemma foldl_decode_strings:
  "all_strings obj \<Longrightarrow>
     all_strings (foldl (\<lambda>obj i. decode_column obj (f i) (g i)) obj xs)"
  by (induction xs arbitrary: obj) (simp_all add: decode_column_strings)

lemma decode_line_strings: "all_strings (decode_line columns colPositions line)"
  unfolding decode_line_def by (rule foldl_decode_strings) (simp add: all_strings_def)

lemma substring_nat:
  "a \<le> b \<Longrightarrow> substring line (int a) (int b) = take (b - a) (drop a line)"
  by (auto simp: substring_def Let_def min_def max_def nat_diff_distrib')

lemma column_value_short:
  assumes "i < length colPositions" "length line \<le> colPositions ! i"
    and "Suc i < length colPositions \<longrightarrow> colPositions ! i \<le> colPositions ! Suc i"
  shows "column_value colPositions line i = []"
  using assms
  by (auto simp: column_value_def slice_start_def slice_end_def substring_def Let_def trim_def
      min_def max_def)

lemma decode_line_empty: "decode_line [] colPositions line = []"
  by (simp add: decode_line_def)

lemma fed_sex_tit_example:
  "decode_column [] (js ''Fed Sex Tit'') (js ''USA m   GM'')
     = [(js ''Fed'', JStr (js ''USA'')), (js ''Sex'', JStr (js ''m'')),
        (js ''Title'', JStr (js ''GM''))]"
  by (simp add: decode_column_def split_ws.simps js_def is_ws_def substring_def
      substring_from_def trim_def js_nth_def js_or_def obj_set_def Let_def)

text \<open>
  Claim C3. For the column labelled \<open>Fed Sex Tit\<close> and every value \<open>v\<close> of it, the
  decoder stores under \<open>Fed\<close> the trimmed first three characters of \<open>v\<close>, under \<open>Sex\<close>
  the first whitespace-separated token of the trimmed remainder (the empty string when
  there is none) and under \<open>Title\<close> the other tokens of the remainder joined by single
  spaces (the empty string when there are none). The value \<open>USA m   GM\<close> gives
  \<open>USA\<close>, \<open>m\<close> and \<open>GM\<close>.
\<close>

theorem fed_sex_tit_decomposition:
  "obj_get (decode_column obj (js ''Fed Sex Tit'') v) (js ''Fed'') = JStr (trim (take 3 v))
   \<and> obj_get (decode_column obj (js ''Fed Sex Tit'') v) (js ''Sex'')
       = JStr (token_at (ws_tokens (trim (drop 3 v))) 0)
   \<and> obj_get (decode_column obj (js ''Fed Sex Tit'') v) (js ''Title'')
       = JStr (js_join (js '' '') (tl (ws_tokens (trim (drop 3 v)))))
   \<and> decode_column [] (js ''Fed Sex Tit'') (js ''USA m   GM'')
       = [(js ''Fed'', JStr (js ''USA'')), (js ''Sex'', JStr (js ''m'')),
          (js ''Title'', JStr (js ''GM''))]"
  by (intro conjI fed_sex_tit_fields fed_sex_tit_example)

text \<open>
  Claim C6. For a column whose label starts with \<open>FOA AUG\<close> and every trimmed slice,
  the decoder stores under \<open>FOA\<close>, \<open>Gms\<close> and \<open>K\<close> the first, second and third
  whitespace-separated token of the slice (the empty string where there is none), and
  under \<open>Rating\<close> the second whitespace-separated token of the column label itself.
\<close>

theorem foa_aug_decomposition:
  assumes "startsWith col (js ''FOA AUG'')"
  shows "obj_get (decode_column obj col (trim w)) (js ''FOA'') = JStr (token_at (ws_tokens (trim w)) 0)
   \<and> obj_get (decode_column obj col (trim w)) (js ''Gms'') = JStr (token_at (ws_tokens (trim w)) 1)
   \<and> obj_get (decode_column obj col (trim w)) (js ''K'') = JStr (token_at (ws_tokens (trim w)) 2)
   \<and> obj_get (decode_column obj col (trim w)) (js ''Rating'') = JStr (token_at (ws_tokens col) 1)"
  by (intro conjI foa_aug_fields assms)

theorem foa_aug_decomposition_witness:
  "startsWith (js ''FOA AUG25 Gms K'') (js ''FOA AUG'')
   \<and> obj_get (decode_column [] (js ''FOA AUG25 Gms K'') (trim (js ''  2400  9 '')))  (js ''FOA'')
       = JStr (js ''2400'')
   \<and> obj_get (decode_column [] (js ''FOA AUG25 Gms K'') (trim (js ''  2400  9 ''))) (js ''Gms'')
       = JStr (js ''9'')
   \<and> obj_get (decode_column [] (js ''FOA AUG25 Gms K'') (trim (js ''  2400  9 ''))) (js ''K'')
       = JStr []
   \<and> obj_get (decode_column [] (js ''FOA AUG25 Gms K'') (trim (js ''  2400  9 ''))) (js ''Rating'')
       = JStr (js ''AUG25'')"
proof -
  have h: "startsWith (js ''FOA AUG25 Gms K'') (js ''FOA AUG'')"
    by (simp add: startsWith_def js_def)
  have t1: "ws_tokens (trim (js ''  2400  9 '')) = [js ''2400'', js ''9'']"
    by (simp add: ws_tokens.simps trim_def js_def is_ws_def)
  have t2: "ws_tokens (js ''FOA AUG25 Gms K'') = [js ''FOA'', js ''AUG25'', js ''Gms'', js ''K'']"
    by (simp add: ws_tokens.simps js_def is_ws_def)
  show ?thesis
    using h foa_aug_decomposition [OF h, of "[]" "js ''  2400  9 ''"]
    by (simp add: t1 t2 token_at_def)
qed

text \<open>
  Claim C2. The decoder is a total function of any columns, any positions and any line:
  none of its operations (\<open>substring\<close>, \<open>trim\<close>, \<open>split\<close>, an assignment to a property
  of a fresh object) throws on strings. Every value of the record it returns is a
  string. A slice takes the characters of the line that exist between its bounds, so a
  column whose start is at or past the end of the line has the empty string as its
  slice, and the empty layout gives the empty record.
\<close>

theorem row_decoder_total:
  "(\<forall>e \<in> set (decode_line columns colPositions line). \<exists>s. snd e = JStr s)
   \<and> (\<forall>a b. a \<le> b \<longrightarrow> substring line (int a) (int b) = take (b - a) (drop a line))
   \<and> (\<forall>i. i < length colPositions \<longrightarrow> length line \<le> colPositions ! i \<longrightarrow>
          (Suc i < length colPositions \<longrightarrow> colPositions ! i \<le> colPositions ! Suc i) \<longrightarrow>
          column_value colPositions line i = [])
   \<and> decode_line [] colPositions line = []"
proof (intro conjI allI impI ballI)
  fix e assume "e \<in> set (decode_line columns colPositions line)"
  with decode_line_strings have "is_str (snd e)" unfolding all_strings_def by blast
  then show "\<exists>s. snd e = JStr s" by (cases "snd e") simp_all
qed (simp_all add: substring_nat column_value_short decode_line_empty)

theorem row_decoder_total_witness:
  "decode_line [js ''Name'', js ''Fed''] [0, 6, 9] (js ''Kim'')
     = [(js ''Name'', JStr (js ''Kim'')), (js ''Fed'', JStr [])]
   \<and> (\<exists>s. snd (js ''Fed'', JStr []) = JStr s)
   \<and> column_value [0, 6, 9] (js ''Kim'') 1 = []
   \<and> substring (js ''Kim'') (int 6) (int 9) = take (9 - 6) (drop 6 (js ''Kim''))"
proof -
  have dec: "decode_line [js ''Name'', js ''Fed''] [0, 6, 9] (js ''Kim'')
     = [(js ''Name'', JStr (js ''Kim'')), (js ''Fed'', JStr [])]"
    by (simp add: decode_line_def decode_column_def column_value_def slice_start_def
        slice_end_def substring_def trim_def startsWith_def obj_set_def js_def is_ws_def Let_def)
  note t = row_decoder_total [of "[js ''Name'', js ''Fed'']" "[0, 6, 9]" "js ''Kim''"]
  have mem: "(js ''Fed'', JStr []) \<in> set (decode_line [js ''Name'', js ''Fed''] [0, 6, 9] (js ''Kim''))"
    unfolding dec by simp
  from t mem have "\<exists>s. snd (js ''Fed'', JStr []) = JStr s" by blast
  moreover from t have "column_value [0, 6, 9] (js ''Kim'') 1 = []"
    by (simp add: js_def)
  moreover have "substring (js ''Kim'') (int 6) (int 9) = take (9 - 6) (drop 6 (js ''Kim''))"
    using t [THEN conjunct2, THEN conjunct1, rule_format, of 6 9] by simp
  ultimately show ?thesis using dec by simp
qed

section \<open>Properties of the Partitioner\<close>

lemma occurs_at_bound:
  assumes "occurs_at pat s p" "pat \<noteq> []"
  shows "p + length pat \<le> length s"
proof -
  have "length (take (length pat) (drop p s)) = length pat"
    using assms(1) by (simp add: occurs_at_def)
  then have "length pat \<le> length s - p" by simp
  moreover have "0 < length pat" using assms(2) by simp
  ultimately show ?thesis by linarith
qed

lemma indexOf_from_first:
  assumes "occurs_at pat s p" "\<forall>q<p. \<not> occurs_at pat s q"
  shows "indexOf_from s pat i = int (i + p)"
  using assms
proof (induction s arbitrary: i p)
  case Nil
  then show ?case by (cases p) (auto simp: occurs_at_def)
next
  case (Cons c cs)
  show ?case
  proof (cases p)
    case 0
    with Cons.prems(1) show ?thesis by (simp add: occurs_at_def startsWith_def)
  next
    case (Suc p')
    with Cons.prems(2) have "\<not> occurs_at pat (c # cs) 0" by simp
    then have nst: "\<not> startsWith (c # cs) pat" by (simp add: occurs_at_def startsWith_def)
    have 1: "occurs_at pat cs p'" using Cons.prems(1) Suc by (simp add: occurs_at_def)
    have 2: "\<forall>q<p'. \<not> occurs_at pat cs q"
    proof (intro allI impI)
      fix q assume "q < p'"
      then have "Suc q < p" using Suc by simp
      with Cons.prems(2) have "\<not> occurs_at pat (c # cs) (Suc q)" by blast
      then show "\<not> occurs_at pat cs q" by (simp add: occurs_at_def)
    qed
    from Cons.IH [OF 1 2, of "Suc i"] nst Suc show ?thesis by simp
  qed
qed

lemma indexOf_from_none:
  assumes "\<forall>q. \<not> occurs_at pat s q" "pat \<noteq> []"
  shows "indexOf_from s pat i = - 1"
  using assms
proof (induction s arbitrary: i)
  case Nil
  then show ?case by simp
next
  case (Cons c cs)
  from Cons.prems(1) have "\<not> occurs_at pat (c # cs) 0" by blast
  then have nst: "\<not> startsWith (c # cs) pat" by (simp add: occurs_at_def startsWith_def)
  have "\<forall>q. \<not> occurs_at pat cs q"
  proof
    fix q
    from Cons.prems(1) have "\<not> occurs_at pat (c # cs) (Suc q)" by blast
    then show "\<not> occurs_at pat cs q" by (simp add: occurs_at_def)
  qed
  from Cons.IH [OF this Cons.prems(2)] nst show ?case by simp
qed

lemma line_fed_at:
  assumes "occurs_at (js ''Fed'') header p" "\<forall>q<p. \<not> occurs_at (js ''Fed'') header q"
  shows "line_fed header line = trim (take 3 (drop p line))"
proof -
  have "fedStart header = int p"
    using indexOf_from_first [OF assms, of 0] by (simp add: fedStart_def indexOf_def)
  moreover have "fedEnd header = int (p + 3)"
    using calculation by (simp add: fedEnd_def js_def)
  ultimately show ?thesis
    using substring_nat [of p "p + 3" line] by (simp add: line_fed_def)
qed

lemma fed_absent:
  assumes "\<forall>q. \<not> occurs_at (js ''Fed'') header q"
  shows "fedStart header = - 1" and "fedEnd header = 2"
    and "line_fed header line = trim (take 2 line)"
proof -
  show 1: "fedStart header = - 1"
    using indexOf_from_none [OF assms, of 0] by (simp add: fedStart_def indexOf_def js_def)
  then show 2: "fedEnd header = 2" by (simp add: fedEnd_def js_def)
  show "line_fed header line = trim (take 2 line)"
    using substring_0 [of line 2] by (simp add: line_fed_def 1 2 substring_def Let_def)
qed

lemma map_of_fed_push:
  "map_of (fed_push m k l) =
     (map_of m)(k \<mapsto> (case map_of m k of None \<Rightarrow> [l] | Some ls \<Rightarrow> ls @ [l]))"
  by (induction m k l rule: fed_push.induct) (auto simp: fun_eq_iff)

lemma fst_fed_push:
  "map fst (fed_push m k l) = (if k \<in> fst ` set m then map fst m else map fst m @ [k])"
  by (induction m k l rule: fed_push.induct) (auto simp: image_iff)

lemma group_lines_snoc:
  "group_lines header (ls @ [l]) = group_step header (group_lines header ls) l"
  by (simp add: group_lines_def)

lemma group_lines_distinct: "distinct (map fst (group_lines header ls))"
proof (induction ls rule: rev_induct)
  case Nil
  then show ?case by (simp add: group_lines_def)
next
  case (snoc l ls)
  then show ?case
    by (auto simp: group_lines_snoc group_step_def Let_def fst_fed_push)
qed

lemma group_lines_map_of:
  "map_of (group_lines header ls) k =
     (if k \<noteq> [] \<and> k \<in> line_fed header ` set ls
      then Some (filter (\<lambda>l. line_fed header l = k) ls) else None)"
proof (induction ls arbitrary: k rule: rev_induct)
  case Nil
  then show ?case by (simp add: group_lines_def)
next
  case (snoc l ls)
  let ?K = "line_fed header"
  let ?G = "group_lines header ls"
  show ?case
  proof (cases "?K l = []")
    case True
    then have "group_lines header (ls @ [l]) = ?G"
      by (simp add: group_lines_snoc group_step_def)
    with True snoc.IH [of k] show ?thesis by auto
  next
    case False
    then have step: "group_lines header (ls @ [l]) = fed_push ?G (?K l) l"
      by (simp add: group_lines_snoc group_step_def)
    show ?thesis
    proof (cases "k = ?K l")
      case k: True
      show ?thesis
      proof (cases "?K l \<in> ?K ` set ls")
        case True
        with False snoc.IH [of "?K l"] have "map_of ?G (?K l) = Some (filter (\<lambda>x. ?K x = ?K l) ls)"
          unfolding k by simp
        with False k show ?thesis by (simp add: step map_of_fed_push)
      next
        case nin: False
        then have "filter (\<lambda>x. ?K x = ?K l) ls = []"
          unfolding filter_empty_conv by (metis imageI)
        moreover from nin snoc.IH [of "?K l"] have "map_of ?G (?K l) = None"
          unfolding k by simp
        ultimately show ?thesis using False k by (simp add: step map_of_fed_push)
      qed
    next
      case nk: False
      then have "?K l \<noteq> k" by blast
      with nk snoc.IH [of k] show ?thesis by (simp add: step map_of_fed_push)
    qed
  qed
qed

lemma group_lines_entries:
  assumes "e \<in> set (group_lines header ls)"
  shows "fst e \<noteq> [] \<and> snd e = filter (\<lambda>l. line_fed header l = fst e) ls \<and> snd e \<noteq> []"
proof -
  have "map_of (group_lines header ls) (fst e) = Some (snd e)"
    using assms map_of_eq_Some_iff [OF group_lines_distinct, of header ls "fst e" "snd e"] by simp
  then have k: "fst e \<noteq> []" "fst e \<in> line_fed header ` set ls"
    and f: "snd e = filter (\<lambda>l. line_fed header l = fst e) ls"
    by (auto simp: group_lines_map_of split: if_splits)
  from k(2) f have "snd e \<noteq> []" by (auto simp: filter_empty_conv)
  with k f show ?thesis by simp
qed

text \<open>
  Claim C4. Where the text \<open>Fed\<close> first stands in the header at offset \<open>p\<close>, the key
  of a line is the trimmed text of its three characters from \<open>p\<close> on, the width of
  the label. For every header, the groups have distinct keys, none of them empty; the
  group of a key holds exactly the lines with this key, in the order of the input; and a
  line whose key is empty is in no group.
\<close>

theorem partitioner_groups:
  "(\<forall>p. occurs_at (js ''Fed'') header p \<longrightarrow> (\<forall>q<p. \<not> occurs_at (js ''Fed'') header q) \<longrightarrow>
        line_fed header line = trim (take 3 (drop p line)))
   \<and> distinct (map fst (group_lines header dataLines))
   \<and> (\<forall>k. map_of (group_lines header dataLines) k =
          (if k \<noteq> [] \<and> k \<in> line_fed header ` set dataLines
           then Some (filter (\<lambda>l. line_fed header l = k) dataLines) else None))
   \<and> (\<forall>e \<in> set (group_lines header dataLines).
          fst e \<noteq> [] \<and> snd e = filter (\<lambda>l. line_fed header l = fst e) dataLines)
   \<and> (\<forall>l. line_fed header l = [] \<longrightarrow>
          (\<forall>e \<in> set (group_lines header dataLines). l \<notin> set (snd e)))"
proof (intro conjI allI impI ballI)
  fix l e
  assume l: "line_fed header l = []" and e: "e \<in> set (group_lines header dataLines)"
  from group_lines_entries [OF e] l show "l \<notin> set (snd e)" by auto
qed (simp_all add: line_fed_at group_lines_distinct group_lines_map_of group_lines_entries)


theorem partitioner_groups_witness:
  "line_fed (js ''ID Fed'') (js ''1  USA'') = js ''USA''
   \<and> group_lines (js ''ID Fed'') [js ''1  USA'', js ''2     '', js ''3  ARG'', js ''4  USA'']
       = [(js ''USA'', [js ''1  USA'', js ''4  USA'']), (js ''ARG'', [js ''3  ARG''])]
   \<and> map_of (group_lines (js ''ID Fed'') [js ''1  USA'', js ''2     '', js ''3  ARG'', js ''4  USA''])
         (js ''USA'')
       = Some (filter (\<lambda>l. line_fed (js ''ID Fed'') l = js ''USA'')
                 [js ''1  USA'', js ''2     '', js ''3  ARG'', js ''4  USA''])
   \<and> js ''2     '' \<notin> set (snd (js ''ARG'', [js ''3  ARG'']))"
proof -
  let ?h = "js ''ID Fed''"
  let ?ls = "[js ''1  USA'', js ''2     '', js ''3  ARG'', js ''4  USA'']"
  note t = partitioner_groups [of ?h "js ''1  USA''" ?ls]
  have occ: "occurs_at (js ''Fed'') ?h 3"
    by (simp add: occurs_at_def js_def)
  have first: "\<forall>q<3. \<not> occurs_at (js ''Fed'') ?h q"
  proof (intro allI impI)
    fix q :: nat assume "q < 3"
    then consider "q = 0" | "q = 1" | "q = 2" by linarith
    then show "\<not> occurs_at (js ''Fed'') ?h q"
      by cases (simp_all add: occurs_at_def js_def)
  qed
  have g: "group_lines ?h ?ls = [(js ''USA'', [js ''1  USA'', js ''4  USA'']), (js ''ARG'', [js ''3  ARG''])]"
    by (simp add: group_lines_def group_step_def line_fed_def fedStart_def fedEnd_def indexOf_def
        startsWith_def substring_def trim_def is_ws_def js_def Let_def)
  have k: "line_fed ?h (js ''1  USA'') = js ''USA''"
    using t occ first by (simp add: trim_def is_ws_def js_def)
  have blank: "line_fed ?h (js ''2     '') = []"
    by (simp add: line_fed_def fedStart_def fedEnd_def indexOf_def
        startsWith_def substring_def trim_def is_ws_def js_def Let_def)
  have m: "map_of (group_lines ?h ?ls) (js ''USA'')
       = Some (filter (\<lambda>l. line_fed ?h l = js ''USA'') ?ls)"
    using t k by (auto simp: image_iff js_def)
  have "(js ''ARG'', [js ''3  ARG'']) \<in> set (group_lines ?h ?ls)"
    unfolding g by simp
  with t blank have "js ''2     '' \<notin> set (snd (js ''ARG'', [js ''3  ARG'']))"
    by blast
  with k g m show ?thesis by simp
qed

text \<open>
  Claim C10. When the text \<open>Fed\<close> stands nowhere in the header, the search gives
  \<open>-1\<close>, the key of a line is the trimmed text of its first two characters, grouping
  returns a result and raises nothing, the lines are grouped by this key, and every line
  whose two-character prefix is not blank is kept in the group of its prefix.
\<close>

theorem partitioner_without_fed_label:
  assumes "\<forall>p. \<not> occurs_at (js ''Fed'') header p"
  shows "fedStart header = - 1
   \<and> line_fed header line = trim (take 2 line)
   \<and> parse_and_group (header # dataLines) = Inr (group_lines header dataLines)
   \<and> (\<forall>k. map_of (group_lines header dataLines) k =
          (if k \<noteq> [] \<and> k \<in> (\<lambda>l. trim (take 2 l)) ` set dataLines
           then Some (filter (\<lambda>l. trim (take 2 l) = k) dataLines) else None))
   \<and> (\<forall>l \<in> set dataLines. trim (take 2 l) \<noteq> [] \<longrightarrow>
          (\<exists>ls. map_of (group_lines header dataLines) (trim (take 2 l)) = Some ls \<and> l \<in> set ls))"
proof -
  have key: "line_fed header = (\<lambda>l. trim (take 2 l))"
    using fed_absent(3) [OF assms] by (simp add: fun_eq_iff)
  have m: "map_of (group_lines header dataLines) k =
          (if k \<noteq> [] \<and> k \<in> (\<lambda>l. trim (take 2 l)) ` set dataLines
           then Some (filter (\<lambda>l. trim (take 2 l) = k) dataLines) else None)" for k
    using group_lines_map_of [of header dataLines k] unfolding key .
  have "\<exists>ls. map_of (group_lines header dataLines) (trim (take 2 l)) = Some ls \<and> l \<in> set ls"
    if "l \<in> set dataLines" "trim (take 2 l) \<noteq> []" for l
    using that by (simp add: m)
  then show ?thesis
    using fed_absent(1) [OF assms] m by (simp add: key parse_and_group_def)
qed

theorem partitioner_without_fed_label_witness:
  "(\<forall>p. \<not> occurs_at (js ''Fed'') (js ''ID Name'') p)
   \<and> fedStart (js ''ID Name'') = - 1
   \<and> line_fed (js ''ID Name'') (js ''USA x'') = js ''US''
   \<and> parse_and_group [js ''ID Name'', js ''USA x'', js ''  y'', js ''ARG'', js ''US''] =
       Inr (group_lines (js ''ID Name'') [js ''USA x'', js ''  y'', js ''ARG'', js ''US''])
   \<and> map_of (group_lines (js ''ID Name'') [js ''USA x'', js ''  y'', js ''ARG'', js ''US'']) (js ''US'')
       = Some [js ''USA x'', js ''US'']"
proof -
  let ?h = "js ''ID Name''"
  have h: "\<forall>p. \<not> occurs_at (js ''Fed'') ?h p"
  proof
    fix p
    show "\<not> occurs_at (js ''Fed'') ?h p"
    proof
      assume a: "occurs_at (js ''Fed'') ?h p"
      from occurs_at_bound [OF this] have "p \<le> 4" by (simp add: js_def)
      then consider "p = 0" | "p = 1" | "p = 2" | "p = 3" | "p = 4" by linarith
      then show False using a by cases (simp_all add: occurs_at_def js_def)
    qed
  qed
  note t = partitioner_without_fed_label [OF h, of "js ''USA x''" "[js ''USA x'', js ''  y'', js ''ARG'', js ''US'']"]
  have "map_of (group_lines ?h [js ''USA x'', js ''  y'', js ''ARG'', js ''US'']) (js ''US'')
       = Some [js ''USA x'', js ''US'']"
    using t by (simp add: trim_def is_ws_def js_def image_iff)
  with h t show ?thesis by (simp add: trim_def is_ws_def js_def)
qed

section \<open>Properties of the delimited text\<close>

lemma resplit_unquoted:
  "44 \<notin> set v \<Longrightarrow>
     csv_resplit_from Unquoted cur (v @ rest) = csv_resplit_from Unquoted (cur @ v) rest"
  by (induction v arbitrary: cur) auto

lemma resplit_start_plain:
  assumes "44 \<notin> set v" "34 \<notin> set v" "v \<noteq> []"
  shows "csv_resplit_from FieldStart [] (v @ rest) = csv_resplit_from Unquoted v rest"
proof -
  obtain c cs where v: "v = c # cs" using assms(3) by (cases v) auto
  with assms have "c \<noteq> 34" "c \<noteq> 44" "44 \<notin> set cs" by auto
  then show ?thesis
    unfolding v using resplit_unquoted [of cs "[c]" rest] by simp
qed

lemma resplit_quoted:
  "csv_resplit_from Quoted cur (double_quotes v @ 34 # rest)
     = csv_resplit_from QuoteSeen (cur @ v) rest"
  by (induction v arbitrary: cur) (auto simp: double_quotes_def)

lemma resplit_end:
  "st \<noteq> Quoted \<Longrightarrow> csv_resplit_from st cur [] = [cur]"
  by simp

lemma resplit_comma:
  "st \<noteq> Quoted \<Longrightarrow> csv_resplit_from st cur (44 # others) = cur # csv_resplit_from FieldStart [] others"
  by (cases st) auto

lemma resplit_value:
  "\<exists>st. st \<noteq> Quoted \<and>
     csv_resplit_from FieldStart [] (csv_value v @ rest) = csv_resplit_from st (field_text v) rest
     \<or> (csv_value v = [] \<and> field_text v = [])"
proof (cases v)
  case JUndefined
  then show ?thesis by (simp add: csv_value_def js_nullish_def field_text_def)
next
  case (JStr s)
  show ?thesis
  proof (cases "44 \<in> set s \<or> 34 \<in> set s \<or> 10 \<in> set s")
    case True
    then have "csv_value v = 34 # double_quotes s @ [34]"
      using JStr by (simp add: csv_value_def js_nullish_def)
    then have "csv_resplit_from FieldStart [] (csv_value v @ rest) = csv_resplit_from QuoteSeen s rest"
      using resplit_quoted [of "[]" s rest] by simp
    then show ?thesis using JStr by (auto simp: field_text_def)
  next
    case False
    then have cv: "csv_value v = s" using JStr by (simp add: csv_value_def js_nullish_def)
    show ?thesis
    proof (cases "s = []")
      case True
      then show ?thesis using cv JStr by (simp add: field_text_def)
    next
      case ne: False
      from False ne have "csv_resplit_from FieldStart [] (s @ rest) = csv_resplit_from Unquoted s rest"
        by (intro resplit_start_plain) auto
      then show ?thesis using cv JStr by (auto simp: field_text_def)
    qed
  qed
qed

lemma resplit_value_end:
  "csv_resplit_from FieldStart [] (csv_value v) = [field_text v]"
  using resplit_value [of v "[]"] by auto

lemma resplit_value_comma:
  "csv_resplit_from FieldStart [] (csv_value v @ 44 # others)
     = field_text v # csv_resplit_from FieldStart [] others"
  using resplit_value [of v "44 # others"] by (auto simp: resplit_comma)

lemma resplit_join:
  "vs \<noteq> [] \<Longrightarrow>
     csv_resplit_from FieldStart [] (js_join [44] (map csv_value vs)) = map field_text vs"
proof (induction vs rule: induct_list012)
  case 1
  then show ?case by simp
next
  case (2 v)
  then show ?case by (simp add: resplit_value_end)
next
  case (3 v w ws)
  then show ?case using resplit_value_comma [of v "js_join [44] (map csv_value (w # ws))"]
    by simp
qed

lemma csv_row_round_trip:
  "csvColumns \<noteq> [] \<Longrightarrow>
     csv_resplit (csv_row csvColumns row) = map (\<lambda>col. field_text (obj_get row col)) csvColumns"
  using resplit_join [of "map (obj_get row) csvColumns"]
  by (simp add: csv_resplit_def csv_row_def comp_def)


lemma fst_obj_update:
  "map fst (obj_update obj k v) = (if k \<in> fst ` set obj then map fst obj else map fst obj @ [k])"
  by (induction obj k v rule: obj_update.induct) (auto simp: image_iff)

lemma fst_obj_set:
  "map fst (obj_set obj k v) =
     (if k = js ''__proto__'' \<or> k \<in> set (map fst obj) then map fst obj else map fst obj @ [k])"
  by (simp add: obj_set_def fst_obj_update)

lemma fst_decode_column_cong:
  assumes "map fst obj = map fst obj'"
  shows "map fst (decode_column obj col v) = map fst (decode_column obj' col v')"
  unfolding decode_column_def Let_def fst_obj_set if_distrib [of "map fst"] assms ..

lemma fst_foldl_decode_cong:
  "map fst obj = map fst obj' \<Longrightarrow>
     map fst (foldl (\<lambda>obj i. decode_column obj (f i) (g i)) obj xs)
     = map fst (foldl (\<lambda>obj i. decode_column obj (f i) (g' i)) obj' xs)"
proof (induction xs arbitrary: obj obj')
  case Nil
  then show ?case by simp
next
  case (Cons x xs)
  show ?case
    using Cons.IH [OF fst_decode_column_cong [OF Cons.prems, of "f x" "g x" "g' x"]] by simp
qed

lemma decode_line_keys:
  "map fst (decode_line columns colPositions line)
     = map fst (decode_line columns colPositions line')"
  unfolding decode_line_def by (rule fst_foldl_decode_cong) simp

lemma fst_insort_key:
  "map fst (insort_key (\<lambda>e. f (fst e)) x xs) = insort_key f (fst x) (map fst xs)"
  by (induction xs) auto

lemma fst_sort_key:
  "map fst (sort_key (\<lambda>e. f (fst e)) xs) = sort_key f (map fst xs)"
  by (induction xs) (auto simp: fst_insort_key)

lemma own_keys_fst:
  "own_keys obj = sort_key digits_value (filter is_array_index (map fst obj))
                  @ filter (\<lambda>k. \<not> is_array_index k) (map fst obj)"
  by (simp add: own_keys_def own_entries_def fst_sort_key filter_map comp_def)

lemma set_own_keys: "set (own_keys obj) = fst ` set obj"
  by (auto simp: own_keys_fst)

lemma obj_get_string:
  assumes "all_strings obj" "k \<in> fst ` set obj"
  shows "\<exists>s. obj_get obj k = JStr s"
proof -
  from assms(2) obtain v where "map_of obj k = Some v"
    by (metis domD dom_map_of_conv_image_fst)
  moreover from this have "(k, v) \<in> set obj" by (rule map_of_SomeD)
  with assms(1) have "is_str v" by (auto simp: all_strings_def)
  ultimately show ?thesis by (cases v) (simp_all add: obj_get_def)
qed

text \<open>
  Claim C5. Round trip. For every record of a group (a line decoded with the columns and
  positions of the group), written as a row over the columns of the group's first
  record: the columns are the record's own keys, every field is a string, and reading
  the row back gives, field by field, the text of the record's fields. For at least one
  column the fields read back are exactly the fields of the record.
\<close>

theorem csv_round_trip:
  fixes columns :: "jsstring list" and colPositions :: "nat list" and line0 line :: jsstring
  defines "csvColumns \<equiv> own_keys (decode_line columns colPositions line0)"
  defines "row \<equiv> decode_line columns colPositions line"
  shows "own_keys row = csvColumns
   \<and> (\<forall>col \<in> set csvColumns. \<exists>s. obj_get row col = JStr s)
   \<and> (\<forall>i<length csvColumns.
         csv_resplit (csv_row csvColumns row) ! i = field_text (obj_get row (csvColumns ! i)))
   \<and> (csvColumns \<noteq> [] \<longrightarrow>
         csv_resplit (csv_row csvColumns row)
           = map (\<lambda>col. field_text (obj_get row col)) csvColumns)"
proof -
  have keys: "own_keys row = csvColumns"
    unfolding row_def csvColumns_def own_keys_fst
    using decode_line_keys [of columns colPositions line line0] by simp
  have strs: "\<exists>s. obj_get row col = JStr s" if "col \<in> set csvColumns" for col
  proof -
    from that keys have "col \<in> fst ` set row" by (simp add: set_own_keys [symmetric])
    with decode_line_strings [of columns colPositions line] show ?thesis
      unfolding row_def by (auto intro: obj_get_string)
  qed
  have rt: "csv_resplit (csv_row csvColumns row)
           = map (\<lambda>col. field_text (obj_get row col)) csvColumns" if "csvColumns \<noteq> []"
    using that by (rule csv_row_round_trip)
  have "csv_resplit (csv_row csvColumns row) ! i = field_text (obj_get row (csvColumns ! i))"
    if "i < length csvColumns" for i
  proof -
    from that have "csvColumns \<noteq> []" by auto
    from rt [OF this] that show ?thesis by simp
  qed
  with keys strs rt show ?thesis by blast
qed

theorem csv_round_trip_witness:
  "decode_line [js ''Name'', js ''Fed''] [0, 10, 13] (js ''Doe, \"J\"  USA'')
     = [(js ''Name'', JStr (js ''Doe, \"J\"'')), (js ''Fed'', JStr (js ''USA''))]
   \<and> csv_row [js ''Name'', js ''Fed''] (decode_line [js ''Name'', js ''Fed''] [0, 10, 13] (js ''Doe, \"J\"  USA''))
     = js ''\"Doe, \"\"J\"\"\",USA''
   \<and> csv_resplit (js ''\"Doe, \"\"J\"\"\",USA'') = [js ''Doe, \"J\"'', js ''USA'']"
proof -
  let ?C = "[js ''Name'', js ''Fed'']" and ?P = "[0, 10, 13]" and ?l = "js ''Doe, \"J\"  USA''"
  have d: "decode_line ?C ?P ?l = [(js ''Name'', JStr (js ''Doe, \"J\"'')), (js ''Fed'', JStr (js ''USA''))]"
    by (simp add: decode_line_def decode_column_def column_value_def slice_start_def
        slice_end_def substring_def trim_def startsWith_def obj_set_def js_def is_ws_def Let_def)
  have k: "own_keys (decode_line ?C ?P ?l) = ?C"
    unfolding d by (simp add: own_keys_def own_entries_def is_array_index_def is_digit_def js_def)
  have r: "csv_row ?C (decode_line ?C ?P ?l) = js ''\"Doe, \"\"J\"\"\",USA''"
    unfolding d by (simp add: csv_row_def csv_value_def obj_get_def js_nullish_def double_quotes_def js_def)
  have "csv_resplit (csv_row ?C (decode_line ?C ?P ?l))
      = map (\<lambda>col. field_text (obj_get (decode_line ?C ?P ?l) col)) ?C"
    using csv_round_trip [of ?C ?P ?l ?l] unfolding k by simp
  then have "csv_resplit (js ''\"Doe, \"\"J\"\"\",USA'') = [js ''Doe, \"J\"'', js ''USA'']"
    unfolding r unfolding d by (simp add: field_text_def obj_get_def js_def)
  with d r show ?thesis by simp
qed

section \<open>Properties of the size strings\<close>















section \<open>Properties of the run\<close>

subsection \<open>One group\<close>

text \<open>
  A key is at most three code units long, so that the keys with the segment \<open>..\<close> are
  the three of \<open>leaves_data\<close>.
\<close>

lemma substring_length: "length (substring s a (a + int n)) \<le> n"
  by (auto simp: substring_def Let_def min_def max_def)

lemma trim_length: "length (trim s) \<le> length s"
proof -
  have "length (trim s) \<le> length (dropWhile is_ws s)"
    using length_dropWhile_le [of is_ws "rev (dropWhile is_ws s)"] by (simp add: trim_def)
  also have "\<dots> \<le> length s" by (rule length_dropWhile_le)
  finally show ?thesis .
qed

lemma line_fed_length: "length (line_fed header l) \<le> 3"
proof -
  have "length (line_fed header l)
      \<le> length (substring l (fedStart header) (fedStart header + int 3))"
    unfolding line_fed_def fedEnd_def by (simp add: js_def trim_length)
  also have "\<dots> \<le> 3" by (rule substring_length)
  finally show ?thesis .
qed

lemma group_keys_short:
  assumes "e \<in> set (group_lines header ls)"
  shows "length (fst e) \<le> 3"
proof -
  from group_lines_entries [OF assms]
  have "filter (\<lambda>l. line_fed header l = fst e) ls \<noteq> []" by metis
  then obtain l where "line_fed header l = fst e"
    by (auto simp: filter_empty_conv)
  with line_fed_length [of header l] show ?thesis by simp
qed

lemma process_group_grows:
  "\<exists>fs. files (process_group env rt header w e) = files w @ fs"
  unfolding process_group_def Let_def
  by (simp add: export_parquet_def write_file_def mkdir_group_def Let_def)

lemma process_group_files:
  assumes "snd e \<noteq> []"
  shows "map fst (files (process_group env rt header w e))
           = map fst (files w) @ group_paths env (fst e) rt"
  unfolding process_group_def Let_def using assms
  by (simp add: export_parquet_def write_file_def mkdir_group_def group_paths_def
      group_files_def Let_def)

lemma process_group_errors:
  "parquet_errors (process_group env rt header w e)
     = parquet_errors w @ (if snd e \<noteq> [] \<and> parquet_fails env (fst e) rt then [(fst e, rt)] else [])"
  unfolding process_group_def Let_def
  by (simp add: export_parquet_def write_file_def mkdir_group_def Let_def)

lemma summary_entry_set:
  "summary_entry (summary_set s f' r' i') f r
     = (if f = f' \<and> r = r' then Some i' else summary_entry s f r)"
  by (simp add: summary_entry_def summary_set_def map_of_obj_update Let_def split: option.split)

lemma process_group_entry:
  "\<exists>info. summary_entry (fedSummary (process_group env rt header w e)) (fst e) rt = Some info
         \<and> count info = length (snd e)
         \<and> (parquet_fails env (fst e) rt \<longrightarrow> parquetSize info = js ''0 B'')"
  unfolding process_group_def Let_def
  by (simp add: export_parquet_def write_file_def mkdir_group_def summary_entry_set Let_def)

lemma process_group_other_entry:
  assumes "f \<noteq> fst e \<or> r \<noteq> rt"
  shows "summary_entry (fedSummary (process_group env rt header w e)) f r
           = summary_entry (fedSummary w) f r"
  unfolding process_group_def Let_def using assms
  by (auto simp add: export_parquet_def write_file_def mkdir_group_def summary_entry_set Let_def)

lemma process_group_data_dir:
  "data_dir (process_group env rt header w e) = (data_dir w \<or> \<not> leaves_data (fst e))"
  unfolding process_group_def Let_def
  by (simp add: export_parquet_def write_file_def mkdir_group_def Let_def)

lemma group_done_process_group:
  assumes "snd e \<noteq> []"
  shows "group_done (parquet_fails env (fst e) rt) (process_group env rt header w e)
           (fst e) rt (length (snd e))"
proof -
  let ?w = "process_group env rt header w e"
  from process_group_entry [of env rt header w e] obtain info where
    se: "summary_entry (fedSummary ?w) (fst e) rt = Some info"
    and c: "count info = length (snd e)"
    and p: "parquet_fails env (fst e) rt \<longrightarrow> parquetSize info = js ''0 B''" by blast
  have f: "set (map fst (files ?w)) = set (map fst (files w)) \<union> set (group_paths env (fst e) rt)"
    unfolding process_group_files [OF assms] by simp
  have g: "set (group_files (fst e) rt) \<subseteq> fst ` set (files ?w)"
    using f by (auto simp: group_paths_def)
  show ?thesis
  proof (cases "parquet_fails env (fst e) rt")
    case True
    with assms have "(fst e, rt) \<in> set (parquet_errors ?w)"
      by (simp add: process_group_errors)
    with True g se c p show ?thesis by (simp add: group_done_def)
  next
    case False
    with f have "DataFile (fst e) rt ParquetFile \<in> fst ` set (files ?w)"
      by (auto simp: group_paths_def)
    with False g se c show ?thesis by (simp add: group_done_def)
  qed
qed

lemma group_done_kept:
  assumes "group_done b w fed rt n" "fst e \<noteq> fed \<or> rt' \<noteq> rt"
  shows "group_done b (process_group env rt' header w e) fed rt n"
proof -
  let ?w = "process_group env rt' header w e"
  from process_group_grows [of env rt' header w e] obtain fs where
    "files ?w = files w @ fs" by blast
  then have f: "fst ` set (files w) \<subseteq> fst ` set (files ?w)" by auto
  have pe: "set (parquet_errors w) \<subseteq> set (parquet_errors ?w)"
    by (simp add: process_group_errors)
  from assms(2) have "fed \<noteq> fst e \<or> rt \<noteq> rt'" by auto
  then have se: "summary_entry (fedSummary ?w) fed rt = summary_entry (fedSummary w) fed rt"
    by (rule process_group_other_entry)
  from assms(1) f pe show ?thesis
    unfolding group_done_def se by (auto split: option.splits if_splits)
qed

subsection \<open>The groups of a dataset\<close>

lemma foldl_process_group_files:
  assumes "\<forall>e \<in> set es. snd e \<noteq> []"
  shows "map fst (files (foldl (process_group env rt header) w es))
           = map fst (files w) @ concat (map (\<lambda>e. group_paths env (fst e) rt) es)"
  using assms
proof (induction es arbitrary: w)
  case Nil
  then show ?case by simp
next
  case (Cons e es)
  then show ?case by (simp add: process_group_files)
qed

lemma foldl_process_group_data_dir:
  "data_dir (foldl (process_group env rt header) w es)
     = (data_dir w \<or> (\<exists>e \<in> set es. \<not> leaves_data (fst e)))"
  by (induction es arbitrary: w) (auto simp: process_group_data_dir)

lemma foldl_group_done_kept:
  assumes "\<forall>e \<in> set es. fst e \<noteq> fed \<or> rt' \<noteq> rt"
  shows "group_done b w fed rt n \<Longrightarrow>
           group_done b (foldl (process_group env rt' header) w es) fed rt n"
  using assms
proof (induction es arbitrary: w)
  case Nil
  then show ?case by simp
next
  case (Cons e es)
  from Cons.prems have "group_done b (process_group env rt' header w e) fed rt n"
    by (intro group_done_kept) simp_all
  with Cons.IH Cons.prems(2) show ?case by simp
qed

lemma foldl_group_done:
  assumes "distinct (map fst es)" "e \<in> set es" "snd e \<noteq> []"
  shows "group_done (parquet_fails env (fst e) rt) (foldl (process_group env rt header) w es)
           (fst e) rt (length (snd e))"
proof -
  from assms(2) obtain pre post where es: "es = pre @ e # post"
    by (auto dest: split_list)
  with assms(1) have nin: "fst e \<notin> fst ` set post" by simp
  have "\<forall>e' \<in> set post. fst e' \<noteq> fst e"
  proof
    fix e' assume "e' \<in> set post"
    then have "fst e' \<in> fst ` set post" by (rule imageI)
    with nin show "fst e' \<noteq> fst e" by metis
  qed
  then have later: "\<forall>e' \<in> set post. fst e' \<noteq> fst e \<or> rt \<noteq> rt" by simp
  have "group_done (parquet_fails env (fst e) rt)
          (process_group env rt header (foldl (process_group env rt header) w pre) e)
          (fst e) rt (length (snd e))"
    by (rule group_done_process_group [OF assms(3)])
  from foldl_group_done_kept [OF later this, of env header]
  show ?thesis by (simp add: es)
qed

lemma set_own_entries: "set (own_entries obj) = set obj"
  by (auto simp: own_entries_def)

lemma distinct_own_keys:
  assumes "distinct (map fst obj)"
  shows "distinct (map fst (own_entries obj))"
proof -
  have "distinct (own_keys obj)"
    unfolding own_keys_fst using assms by (auto simp: distinct_filter)
  then show ?thesis by (simp add: own_keys_def)
qed

lemma processFideRatings_header:
  assumes "fetch_lines env url = Inr (header # dataLines)"
  shows "processFideRatings env url rt w
           = Inr (foldl (process_group env rt header) w (own_entries (group_lines header dataLines)))"
  using assms by (simp add: processFideRatings_def parse_and_group_def)

lemma processFideRatings_Inr:
  assumes "processFideRatings env url rt w = Inr w'"
  obtains header dataLines where "fetch_lines env url = Inr (header # dataLines)"
    and "w' = foldl (process_group env rt header) w (own_entries (group_lines header dataLines))"
  using assms
  by (auto simp: processFideRatings_def parse_and_group_def split: sum.splits list.splits)

lemma processFideRatings_group_done:
  assumes "processFideRatings env url rt w = Inr w'"
    and "fetch_lines env url = Inr (header # dataLines)"
    and "e \<in> set (group_lines header dataLines)"
  shows "group_done (parquet_fails env (fst e) rt) w' (fst e) rt (length (snd e))"
proof -
  from assms(1,2) have w': "w' = foldl (process_group env rt header) w
      (own_entries (group_lines header dataLines))"
    by (simp add: processFideRatings_header)
  from group_lines_entries [OF assms(3)] have ne: "snd e \<noteq> []" by blast
  have d: "distinct (map fst (own_entries (group_lines header dataLines)))"
    by (rule distinct_own_keys [OF group_lines_distinct])
  have m: "e \<in> set (own_entries (group_lines header dataLines))"
    using assms(3) by (simp add: set_own_entries)
  show ?thesis
    unfolding w' by (rule foldl_group_done [OF d m ne])
qed

lemma processFideRatings_group_done_kept:
  assumes "processFideRatings env url rt' w = Inr w'" "rt' \<noteq> rt" "group_done b w fed rt n"
  shows "group_done b w' fed rt n"
proof -
  from assms(1) obtain header dataLines where
    "w' = foldl (process_group env rt' header) w (own_entries (group_lines header dataLines))"
    by (rule processFideRatings_Inr)
  with assms(2,3) show ?thesis
    by (simp add: foldl_group_done_kept)
qed

lemma processFideRatings_data_dir:
  assumes "processFideRatings env url rt w = Inr w'"
  shows "data_dir w' = (data_dir w \<or> keeps_data (fetch_lines env url))"
proof -
  from assms obtain header dataLines where
    "fetch_lines env url = Inr (header # dataLines)"
    "w' = foldl (process_group env rt header) w (own_entries (group_lines header dataLines))"
    by (rule processFideRatings_Inr)
  then show ?thesis
    by (simp add: foldl_process_group_data_dir set_own_entries keeps_data_def)
qed

subsection \<open>The datasets of a run\<close>

lemma run_sources_completes:
  assumes "\<forall>src \<in> set srcs. has_header (fetch_lines env (fst src))"
  shows "\<exists>w'. run_sources env srcs w = Inr w'"
  using assms
proof (induction srcs arbitrary: w)
  case Nil
  then show ?case by simp
next
  case (Cons src srcs)
  obtain url rt where src: "src = (url, rt)" by (cases src)
  from Cons.prems src have "has_header (fetch_lines env url)" by simp
  then obtain h ls where "fetch_lines env url = Inr (h # ls)"
    by (cases "fetch_lines env url") (auto simp: has_header_def neq_Nil_conv)
  from processFideRatings_header [OF this, of rt w]
  obtain w1 where "processFideRatings env url rt w = Inr w1" by blast
  with Cons.IH [of w1] Cons.prems show ?case by (simp add: src)
qed

lemma run_sources_data_dir:
  "run_sources env srcs w = Inr w' \<Longrightarrow>
     data_dir w' = (data_dir w \<or> (\<exists>src \<in> set srcs. keeps_data (fetch_lines env (fst src))))"
proof (induction srcs arbitrary: w)
  case Nil
  then show ?case by simp
next
  case (Cons src srcs)
  obtain url rt where src: "src = (url, rt)" by (cases src)
  from Cons.prems obtain w1 where
    w1: "processFideRatings env url rt w = Inr w1" and r: "run_sources env srcs w1 = Inr w'"
    by (auto simp: src split: sum.splits)
  from Cons.IH [OF r] processFideRatings_data_dir [OF w1]
  show ?case by (auto simp: src)
qed

lemma run_sources_group_done_kept:
  "run_sources env srcs w = Inr w' \<Longrightarrow> rt \<notin> snd ` set srcs \<Longrightarrow> group_done b w fed rt n \<Longrightarrow>
     group_done b w' fed rt n"
proof (induction srcs arbitrary: w)
  case Nil
  then show ?case by simp
next
  case (Cons src srcs)
  obtain url rt' where src: "src = (url, rt')" by (cases src)
  from Cons.prems(1) obtain w1 where
    w1: "processFideRatings env url rt' w = Inr w1" and r: "run_sources env srcs w1 = Inr w'"
    by (auto simp: src split: sum.splits)
  from Cons.prems(2) have ne: "rt' \<noteq> rt" "rt \<notin> snd ` set srcs" by (auto simp: src)
  from processFideRatings_group_done_kept [OF w1 ne(1) Cons.prems(3)]
  have "group_done b w1 fed rt n" .
  from Cons.IH [OF r ne(2) this] show ?case .
qed

lemma run_sources_group_done:
  "run_sources env srcs w = Inr w' \<Longrightarrow> distinct (map snd srcs) \<Longrightarrow> src \<in> set srcs \<Longrightarrow>
   fetch_lines env (fst src) = Inr (header # dataLines) \<Longrightarrow>
   e \<in> set (group_lines header dataLines) \<Longrightarrow>
     group_done (parquet_fails env (fst e) (snd src)) w' (fst e) (snd src) (length (snd e))"
proof (induction srcs arbitrary: w)
  case Nil
  then show ?case by simp
next
  case (Cons s srcs)
  obtain url rt where s: "s = (url, rt)" by (cases s)
  from Cons.prems(1) obtain w1 where
    w1: "processFideRatings env url rt w = Inr w1" and r: "run_sources env srcs w1 = Inr w'"
    by (auto simp: s split: sum.splits)
  from Cons.prems(2) have d: "rt \<notin> snd ` set srcs" "distinct (map snd srcs)"
    by (auto simp: s)
  show ?case
  proof (cases "src = s")
    case True
    with Cons.prems(4) s have "fetch_lines env url = Inr (header # dataLines)" by simp
    from processFideRatings_group_done [OF w1 this Cons.prems(5)]
    have "group_done (parquet_fails env (fst e) rt) w1 (fst e) rt (length (snd e))" .
    from run_sources_group_done_kept [OF r d(1) this] True s show ?thesis by simp
  next
    case False
    with Cons.prems(3) have "src \<in> set srcs" by simp
    from Cons.IH [OF r d(2) this Cons.prems(4,5)] show ?thesis .
  qed
qed

lemma distinct_ratingSources: "distinct (map snd ratingSources)"
  by (simp add: ratingSources_def js_def)

lemma generateIndexHtml_group_done:
  assumes "generateIndexHtml w = Inr w'" "group_done b w fed rt n"
  shows "group_done b w' fed rt n"
proof -
  from assms(1) have "w' = write_file w IndexHtml (IndexPage ratingTypes
      (index_federations (fedSummary w)))"
    by (simp add: generateIndexHtml_def split: if_splits)
  with assms(2) show ?thesis
    by (auto simp: group_done_def write_file_def split: option.splits if_splits)
qed

lemma main_Inr:
  assumes "main env = Inr w"
  obtains w0 where "run_sources env ratingSources (initial_world env) = Inr w0"
    and "generateIndexHtml w0 = Inr w"
  using assms by (auto simp: main_def split: sum.splits)

lemma main_group_done:
  assumes "main env = Inr w" "src \<in> set ratingSources"
    and "fetch_lines env (fst src) = Inr (header # dataLines)"
    and "e \<in> set (group_lines header dataLines)"
  shows "group_done (parquet_fails env (fst e) (snd src)) w (fst e) (snd src) (length (snd e))"
proof -
  from assms(1) obtain w0 where
    r: "run_sources env ratingSources (initial_world env) = Inr w0"
    and g: "generateIndexHtml w0 = Inr w" by (rule main_Inr)
  from run_sources_group_done [OF r distinct_ratingSources assms(2,3,4)]
  show ?thesis by (rule generateIndexHtml_group_done [OF g])
qed

lemma main_reaches_page:
  assumes "downloads_ok env"
  shows "\<exists>w. run_sources env ratingSources (initial_world env) = Inr w
           \<and> main env = generateIndexHtml w \<and> data_dir w = data_made env"
proof -
  from assms have "\<forall>src \<in> set ratingSources. has_header (fetch_lines env (fst src))"
    by (simp add: downloads_ok_def)
  from run_sources_completes [OF this, of "initial_world env"]
  obtain w where w: "run_sources env ratingSources (initial_world env) = Inr w" by blast
  from run_sources_data_dir [OF w] have "data_dir w = data_made env"
    by (simp add: data_made_def initial_world_def)
  with w show ?thesis by (simp add: main_def)
qed

lemma main_completes:
  assumes "downloads_ok env" "data_made env"
  shows "\<exists>w. main env = Inr w"
  using main_reaches_page [OF assms(1)] assms(2)
  by (auto simp: generateIndexHtml_def)

lemma main_index_page:
  assumes "main env = Inr w"
  shows "last (files w) = (IndexHtml, IndexPage ratingTypes (index_federations (fedSummary w)))"
  using assms
  by (auto simp: main_def generateIndexHtml_def write_file_def split: sum.splits if_splits)

subsection \<open>A run apart from the columnar export\<close>

lemma np_write_file:
  "without_parquet (write_file w p c) =
     (if is_parquet p then without_parquet w
      else write_file (without_parquet w) p (strip_content c))"
  by (simp add: without_parquet_def write_file_def)

lemma np_errors: "without_parquet (w\<lparr>parquet_errors := x\<rparr>) = without_parquet w"
  by (simp add: without_parquet_def)

lemma np_mkdir_group:
  "without_parquet (mkdir_group w fed) = mkdir_group (without_parquet w) fed"
  by (simp add: without_parquet_def mkdir_group_def)

lemma map_of_map_snd:
  "map_of (map (\<lambda>e. (fst e, f (snd e))) s) k = map_option f (map_of s k)"
  by (induction s) auto

lemma obj_update_map_snd:
  "obj_update (map (\<lambda>e. (fst e, f (snd e))) s) k (f v)
     = map (\<lambda>e. (fst e, f (snd e))) (obj_update s k v)"
  by (induction s k v rule: obj_update.induct) auto

lemma np_summary:
  "without_parquet (w\<lparr>fedSummary := summary_set (fedSummary w) fed rt info\<rparr>)
     = (without_parquet w)\<lparr>fedSummary :=
          summary_set (fedSummary (without_parquet w)) fed rt (reset_parquetSize info)\<rparr>"
proof -
  let ?g = reset_parquetSize
  let ?f = "\<lambda>m :: (jsstring \<times> summary_info) list. map (\<lambda>i. (fst i, ?g (snd i))) m"
  let ?inner = "case map_of (fedSummary w) fed of None \<Rightarrow> [] | Some m \<Rightarrow> m"
  have inner: "(case map_of (map (\<lambda>e. (fst e, ?f (snd e))) (fedSummary w)) fed of
                  None \<Rightarrow> [] | Some m \<Rightarrow> m) = ?f ?inner"
    by (simp add: map_of_map_snd split: option.split)
  have "map (\<lambda>e. (fst e, ?f (snd e))) (obj_update (fedSummary w) fed (obj_update ?inner rt info))
      = obj_update (map (\<lambda>e. (fst e, ?f (snd e))) (fedSummary w)) fed (?f (obj_update ?inner rt info))"
    by (rule obj_update_map_snd [symmetric])
  also have "?f (obj_update ?inner rt info) = obj_update (?f ?inner) rt (?g info)"
    by (rule obj_update_map_snd [symmetric])
  finally show ?thesis
    by (simp add: without_parquet_def summary_set_def Let_def inner)
qed

lemma np_export_parquet:
  "without_parquet (fst (export_parquet env fed rt cols data w)) = without_parquet w"
  by (simp add: export_parquet_def np_write_file np_errors Let_def)

lemma np_process_group:
  assumes "without_parquet w = without_parquet w'" "file_size env = file_size env'"
    and "floor_log env = floor_log env'"
  shows "without_parquet (process_group env rt h w g) = without_parquet (process_group env' rt h w' g)"
  unfolding process_group_def Let_def
  by (simp add: case_prod_beta np_summary np_write_file np_export_parquet np_mkdir_group assms
      reset_parquetSize_def)

lemma np_foldl_process_group:
  assumes "file_size env = file_size env'" "floor_log env = floor_log env'"
  shows "without_parquet w = without_parquet w' \<Longrightarrow>
     without_parquet (foldl (process_group env rt h) w gs)
       = without_parquet (foldl (process_group env' rt h) w' gs)"
proof (induction gs arbitrary: w w')
  case Nil
  then show ?case by simp
next
  case (Cons g gs)
  show ?case
    using Cons.IH [OF np_process_group [OF Cons.prems assms, of rt h g]] by simp
qed

lemma np_processFideRatings:
  assumes "file_size env = file_size env'" "floor_log env = floor_log env'"
    and "fetch_lines env = fetch_lines env'"
    and "without_parquet w = without_parquet w'"
  shows "map_sum id without_parquet (processFideRatings env url rt w)
       = map_sum id without_parquet (processFideRatings env' url rt w')"
  using np_foldl_process_group [OF assms(1,2,4)]
  by (simp add: processFideRatings_def assms(3) split: sum.split)

lemma np_run_sources:
  assumes "file_size env = file_size env'" "floor_log env = floor_log env'"
    and "fetch_lines env = fetch_lines env'"
  shows "without_parquet w = without_parquet w' \<Longrightarrow>
     map_sum id without_parquet (run_sources env srcs w)
       = map_sum id without_parquet (run_sources env' srcs w')"
proof (induction srcs arbitrary: w w')
  case Nil
  then show ?case by simp
next
  case (Cons src srcs)
  obtain url rt where src: "src = (url, rt)" by (cases src)
  show ?case
  proof (cases "processFideRatings env url rt w")
    case (Inl e)
    with np_processFideRatings [OF assms Cons.prems, of url rt]
    obtain e' where "processFideRatings env' url rt w' = Inl e'" "e' = e"
      by (cases "processFideRatings env' url rt w'") auto
    with Inl show ?thesis by (simp add: src)
  next
    case (Inr v)
    with np_processFideRatings [OF assms Cons.prems, of url rt]
    obtain v' where v': "processFideRatings env' url rt w' = Inr v'"
      "without_parquet v = without_parquet v'"
      by (cases "processFideRatings env' url rt w'") auto
    from Cons.IH [OF v'(2)] Inr v'(1) show ?thesis by (simp add: src)
  qed
qed

lemma own_keys_map_snd: "own_keys (map (\<lambda>e. (fst e, f (snd e))) s) = own_keys s"
  by (simp add: own_keys_fst comp_def)

lemma np_index_federations:
  "index_federations (fedSummary (without_parquet w))
     = map (\<lambda>e. (fst e, map (map_option reset_parquetSize) (snd e)))
         (index_federations (fedSummary w))"
  by (simp add: index_federations_def without_parquet_def own_keys_map_snd map_of_map_snd
      comp_def split: option.split)

lemma data_dir_without_parquet: "data_dir (without_parquet w) = data_dir w"
  by (simp add: without_parquet_def)

lemma np_generateIndexHtml:
  "map_sum id without_parquet (generateIndexHtml w) = generateIndexHtml (without_parquet w)"
  by (simp add: generateIndexHtml_def np_write_file np_index_federations data_dir_without_parquet)

lemma np_main:
  assumes "file_size env = file_size env'" "floor_log env = floor_log env'"
    and "fetch_lines env = fetch_lines env'" "data_exists env = data_exists env'"
  shows "map_sum id without_parquet (main env) = map_sum id without_parquet (main env')"
proof -
  have i: "without_parquet (initial_world env) = without_parquet (initial_world env')"
    by (simp add: initial_world_def assms(4))
  note r = np_run_sources [OF assms(1,2,3) i, of ratingSources]
  show ?thesis
  proof (cases "run_sources env ratingSources (initial_world env)")
    case (Inl e)
    with r obtain e' where "run_sources env' ratingSources (initial_world env') = Inl e'" "e' = e"
      by (cases "run_sources env' ratingSources (initial_world env')") auto
    with Inl show ?thesis by (simp add: main_def)
  next
    case (Inr v)
    with r obtain v' where v': "run_sources env' ratingSources (initial_world env') = Inr v'"
      "without_parquet v = without_parquet v'"
      by (cases "run_sources env' ratingSources (initial_world env')") auto
    with Inr show ?thesis by (simp add: main_def np_generateIndexHtml)
  qed
qed

lemma process_group_on_failure:
  fixes w :: world and header :: jsstring
  assumes "parquet_fails env fed rt" "fedLines \<noteq> []"
  defines "w' \<equiv> process_group env rt header w (fed, fedLines)"
  shows "map fst (files w') = map fst (files w) @
           [DataFile fed rt TxtFile, DataFile fed rt TxtZip, DataFile fed rt JsonFile,
            DataFile fed rt JsonZip, DataFile fed rt CsvFile, DataFile fed rt CsvZip]"
    and "parquet_errors w' = parquet_errors w @ [(fed, rt)]"
    and "\<exists>m info. map_of (fedSummary w') fed = Some m \<and> map_of m rt = Some info
           \<and> count info = length fedLines \<and> parquetSize info = js ''0 B''"
  unfolding w'_def process_group_def Let_def
  using assms(1,2)
  by (simp_all add: export_parquet_def write_file_def mkdir_group_def summary_set_def
      map_of_obj_update Let_def)

text \<open>
  Claim C7. Whichever groups the columnar export fails for, the run ends as the run
  without any such failure does, with the same error or with the same world apart from
  the columnar files, their sizes and the logged errors, and a run that returns has the
  listing page as its last write. Where every download gives a header line, the loop
  over the datasets returns and the run goes on to the generation of the listing page;
  writing the page succeeds exactly where the directory \<open>data\<close> exists then (it was there
  from the start, or some group has its directory in it), so that the run returns there.
  In a run that returns, every group of every dataset has been processed: its files
  other than the columnar one are written and its entry is in the table, with the
  failure logged and the columnar size \<open>0 B\<close> where its export failed, and with the
  columnar file where it did not. For one group whose columnar export fails, the loop
  writes the text, JSON and delimited files and their archives, logs the failure, and
  records the entry of the group, with the columnar size left at \<open>0 B\<close>.
\<close>

theorem parquet_failure_isolated:
  "map_sum id without_parquet (main (env\<lparr>parquet_fails := pf\<rparr>))
     = map_sum id without_parquet (main (env\<lparr>parquet_fails := \<lambda>fed rt. False\<rparr>))
   \<and> (\<forall>w. main (env\<lparr>parquet_fails := pf\<rparr>) = Inr w \<longrightarrow>
          last (files w) = (IndexHtml, IndexPage ratingTypes (index_federations (fedSummary w))))
   \<and> (downloads_ok env \<longrightarrow>
          (\<exists>w. run_sources (env\<lparr>parquet_fails := pf\<rparr>) ratingSources
                  (initial_world (env\<lparr>parquet_fails := pf\<rparr>)) = Inr w
             \<and> main (env\<lparr>parquet_fails := pf\<rparr>) = generateIndexHtml w
             \<and> data_dir w = data_made env))
   \<and> (downloads_ok env \<longrightarrow> data_made env \<longrightarrow> (\<exists>w. main (env\<lparr>parquet_fails := pf\<rparr>) = Inr w))
   \<and> (\<forall>w. main (env\<lparr>parquet_fails := pf\<rparr>) = Inr w \<longrightarrow>
          (\<forall>src \<in> set ratingSources. \<forall>header dataLines.
             fetch_lines env (fst src) = Inr (header # dataLines) \<longrightarrow>
             (\<forall>e \<in> set (group_lines header dataLines).
                group_done (pf (fst e) (snd src)) w (fst e) (snd src) (length (snd e)))))
   \<and> (\<forall>fed rt header fedLines w. pf fed rt \<longrightarrow> fedLines \<noteq> [] \<longrightarrow>
          map fst (files (process_group (env\<lparr>parquet_fails := pf\<rparr>) rt header w (fed, fedLines)))
            = map fst (files w) @
                [DataFile fed rt TxtFile, DataFile fed rt TxtZip, DataFile fed rt JsonFile,
                 DataFile fed rt JsonZip, DataFile fed rt CsvFile, DataFile fed rt CsvZip]
          \<and> parquet_errors (process_group (env\<lparr>parquet_fails := pf\<rparr>) rt header w (fed, fedLines))
            = parquet_errors w @ [(fed, rt)]
          \<and> (\<exists>m info.
                map_of (fedSummary (process_group (env\<lparr>parquet_fails := pf\<rparr>) rt header w
                          (fed, fedLines))) fed = Some m
                \<and> map_of m rt = Some info \<and> count info = length fedLines
                \<and> parquetSize info = js ''0 B''))"
proof (intro conjI allI impI ballI)
  show "map_sum id without_parquet (main (env\<lparr>parquet_fails := pf\<rparr>))
     = map_sum id without_parquet (main (env\<lparr>parquet_fails := \<lambda>fed rt. False\<rparr>))"
    by (rule np_main) simp_all
next
  fix w assume "main (env\<lparr>parquet_fails := pf\<rparr>) = Inr w"
  then show "last (files w) = (IndexHtml, IndexPage ratingTypes (index_federations (fedSummary w)))"
    by (rule main_index_page)
next
  assume "downloads_ok env"
  then have "downloads_ok (env\<lparr>parquet_fails := pf\<rparr>)" by (simp add: downloads_ok_def)
  from main_reaches_page [OF this]
  show "\<exists>w. run_sources (env\<lparr>parquet_fails := pf\<rparr>) ratingSources
                  (initial_world (env\<lparr>parquet_fails := pf\<rparr>)) = Inr w
             \<and> main (env\<lparr>parquet_fails := pf\<rparr>) = generateIndexHtml w
             \<and> data_dir w = data_made env"
    by (simp add: data_made_def)
next
  assume "downloads_ok env" "data_made env"
  then have "downloads_ok (env\<lparr>parquet_fails := pf\<rparr>)" "data_made (env\<lparr>parquet_fails := pf\<rparr>)"
    by (simp_all add: downloads_ok_def data_made_def)
  then show "\<exists>w. main (env\<lparr>parquet_fails := pf\<rparr>) = Inr w" by (rule main_completes)
next
  fix w src header dataLines e
  assume m: "main (env\<lparr>parquet_fails := pf\<rparr>) = Inr w" and s: "src \<in> set ratingSources"
    and f: "fetch_lines env (fst src) = Inr (header # dataLines)"
    and e: "e \<in> set (group_lines header dataLines)"
  from f have "fetch_lines (env\<lparr>parquet_fails := pf\<rparr>) (fst src) = Inr (header # dataLines)"
    by simp
  from main_group_done [OF m s this e]
  show "group_done (pf (fst e) (snd src)) w (fst e) (snd src) (length (snd e))" by simp
next
  fix fed rt header :: jsstring and fedLines :: "jsstring list" and w :: world
  assume a: "pf fed rt" "fedLines \<noteq> []"
  then have f: "parquet_fails (env\<lparr>parquet_fails := pf\<rparr>) fed rt" by simp
  show "map fst (files (process_group (env\<lparr>parquet_fails := pf\<rparr>) rt header w (fed, fedLines)))
            = map fst (files w) @
                [DataFile fed rt TxtFile, DataFile fed rt TxtZip, DataFile fed rt JsonFile,
                 DataFile fed rt JsonZip, DataFile fed rt CsvFile, DataFile fed rt CsvZip]"
    by (rule process_group_on_failure(1) [OF f a(2)])
  show "parquet_errors (process_group (env\<lparr>parquet_fails := pf\<rparr>) rt header w (fed, fedLines))
            = parquet_errors w @ [(fed, rt)]"
    by (rule process_group_on_failure(2) [OF f a(2)])
  show "\<exists>m info.
                map_of (fedSummary (process_group (env\<lparr>parquet_fails := pf\<rparr>) rt header w
                          (fed, fedLines))) fed = Some m
                \<and> map_of m rt = Some info \<and> count info = length fedLines
                \<and> parquetSize info = js ''0 B''"
    by (rule process_group_on_failure(3) [OF f a(2)])
qed

theorem parquet_failure_isolated_witness:
  "(\<exists>w. main \<lparr>fetch_lines = \<lambda>url. Inr [js ''Fed'', js ''USA''], file_size = \<lambda>c. 0,
              floor_log = log1024, parquet_fails = \<lambda>fed rt. True, data_exists = False\<rparr> = Inr w
        \<and> last (files w) = (IndexHtml, IndexPage ratingTypes (index_federations (fedSummary w)))
        \<and> group_done True w (js ''USA'') (js ''standard'') 1)
   \<and> map fst (files (process_group
         \<lparr>fetch_lines = \<lambda>url. Inr [js ''Fed'', js ''USA''], file_size = \<lambda>c. 0,
          floor_log = log1024, parquet_fails = \<lambda>fed rt. True, data_exists = False\<rparr>
         (js ''blitz'') (js ''Fed'')
         \<lparr>files = [], fedSummary = [], parquet_errors = [], data_dir = False\<rparr>
         (js ''USA'', [js ''USA''])))
       = [DataFile (js ''USA'') (js ''blitz'') TxtFile, DataFile (js ''USA'') (js ''blitz'') TxtZip,
          DataFile (js ''USA'') (js ''blitz'') JsonFile, DataFile (js ''USA'') (js ''blitz'') JsonZip,
          DataFile (js ''USA'') (js ''blitz'') CsvFile, DataFile (js ''USA'') (js ''blitz'') CsvZip]
   \<and> parquet_errors (process_group
         \<lparr>fetch_lines = \<lambda>url. Inr [js ''Fed'', js ''USA''], file_size = \<lambda>c. 0,
          floor_log = log1024, parquet_fails = \<lambda>fed rt. True, data_exists = False\<rparr>
         (js ''blitz'') (js ''Fed'')
         \<lparr>files = [], fedSummary = [], parquet_errors = [], data_dir = False\<rparr>
         (js ''USA'', [js ''USA'']))
       = [(js ''USA'', js ''blitz'')]"
proof -
  define env0 :: env where
    "env0 = \<lparr>fetch_lines = \<lambda>url. Inr [js ''Fed'', js ''USA''], file_size = \<lambda>c. 0,
             floor_log = log1024, parquet_fails = \<lambda>fed rt. False, data_exists = False\<rparr>"
  define w0 :: world where
    "w0 = \<lparr>files = [], fedSummary = [], parquet_errors = [], data_dir = False\<rparr>"
  have e: "env0\<lparr>parquet_fails := \<lambda>fed rt. True\<rparr>
      = \<lparr>fetch_lines = \<lambda>url. Inr [js ''Fed'', js ''USA''], file_size = \<lambda>c. 0,
         floor_log = log1024, parquet_fails = \<lambda>fed rt. True, data_exists = False\<rparr>"
    by (simp add: env0_def)
  note t = parquet_failure_isolated [where env = env0 and pf = "\<lambda>fed rt. True", unfolded e]
  have k: "line_fed (js ''Fed'') (js ''USA'') = js ''USA''"
    by (simp add: line_fed_def fedStart_def fedEnd_def indexOf_def startsWith_def
        substring_def trim_def is_ws_def js_def Let_def)
  have g: "group_lines (js ''Fed'') [js ''USA''] = [(js ''USA'', [js ''USA''])]"
    by (simp add: group_lines_def group_step_def k Let_def) (simp add: js_def)
  have ok: "downloads_ok env0"
    by (simp add: downloads_ok_def has_header_def env0_def)
  have src: "hd ratingSources \<in> set ratingSources" by (simp add: ratingSources_def)
  have kd: "keeps_data (Inr [js ''Fed'', js ''USA''])"
    by (simp add: keeps_data_def g) (simp add: leaves_data_def js_def)
  have made: "data_made env0"
    unfolding data_made_def by (rule disjI2, rule bexI [OF _ src]) (simp add: env0_def kd)
  from t ok made obtain w where w: "main \<lparr>fetch_lines = \<lambda>url. Inr [js ''Fed'', js ''USA''],
      file_size = \<lambda>c. 0, floor_log = log1024, parquet_fails = \<lambda>fed rt. True,
      data_exists = False\<rparr> = Inr w"
    by blast
  with t have l: "last (files w)
      = (IndexHtml, IndexPage ratingTypes (index_federations (fedSummary w)))"
    by blast
  have f: "fetch_lines env0 (fst (hd ratingSources)) = Inr (js ''Fed'' # [js ''USA''])"
    by (simp add: env0_def)
  have m: "(js ''USA'', [js ''USA'']) \<in> set (group_lines (js ''Fed'') [js ''USA''])"
    by (simp add: g)
  note d = t [THEN conjunct2, THEN conjunct2, THEN conjunct2, THEN conjunct2, THEN conjunct1,
      rule_format, OF w src f m]
  then have d: "group_done True w (js ''USA'') (js ''standard'') 1"
    by (simp add: ratingSources_def)
  from w l d have 1: "\<exists>w. main \<lparr>fetch_lines = \<lambda>url. Inr [js ''Fed'', js ''USA''],
      file_size = \<lambda>c. 0, floor_log = log1024, parquet_fails = \<lambda>fed rt. True,
      data_exists = False\<rparr> = Inr w
        \<and> last (files w) = (IndexHtml, IndexPage ratingTypes (index_federations (fedSummary w)))
        \<and> group_done True w (js ''USA'') (js ''standard'') 1"
    by blast
  have ne: "[js ''USA''] \<noteq> []" by simp
  note g5 = t [THEN conjunct2, THEN conjunct2, THEN conjunct2, THEN conjunct2, THEN conjunct2]
  note g' = g5 [THEN spec [where x = "js ''USA''"], THEN spec [where x = "js ''blitz''"],
      THEN spec [where x = "js ''Fed''"], THEN spec [where x = "[js ''USA'']"],
      THEN spec [where x = w0], THEN mp, OF TrueI, THEN mp, OF ne]
  show ?thesis using 1 g' by (simp add: w0_def)
qed

subsection \<open>The order of the groups\<close>

lemma set_first_appearances [simp]: "set (first_appearances xs) = set xs"
  by (induction xs) auto

lemma first_appearances_snoc:
  "first_appearances (xs @ [x]) =
     (if x \<in> set xs then first_appearances xs else first_appearances xs @ [x])"
proof (induction xs)
  case Nil
  then show ?case by simp
next
  case (Cons a xs)
  then show ?case by (cases "x = a") auto
qed

lemma group_lines_keys:
  "map fst (group_lines header ls) =
     first_appearances (filter (\<lambda>k. k \<noteq> []) (map (line_fed header) ls))"
proof (induction ls rule: rev_induct)
  case Nil
  then show ?case by (simp add: group_lines_def)
next
  case (snoc l ls)
  have "fst ` set (group_lines header ls) = set (map fst (group_lines header ls))" by simp
  also have "\<dots> = set (filter (\<lambda>k. k \<noteq> []) (map (line_fed header) ls))"
    unfolding snoc.IH by simp
  finally have keys: "fst ` set (group_lines header ls)
      = set (filter (\<lambda>k. k \<noteq> []) (map (line_fed header) ls))" .
  show ?case
    by (simp add: group_lines_snoc group_step_def Let_def fst_fed_push first_appearances_snoc
        snoc.IH keys del: set_filter)
qed

lemma own_entries_order:
  "map fst (own_entries (group_lines header ls)) =
     entries_order (first_appearances (filter (\<lambda>k. k \<noteq> []) (map (line_fed header) ls)))"
  using own_keys_fst [of "group_lines header ls"]
  by (simp add: own_keys_def entries_order_def group_lines_keys)

lemma entries_order_no_index:
  assumes "\<forall>k \<in> set ks. \<not> is_array_index k"
  shows "entries_order ks = ks"
proof -
  from assms have "filter is_array_index ks = []"
    by (auto simp: filter_empty_conv)
  moreover from assms have "filter (\<lambda>k. \<not> is_array_index k) ks = ks"
    by (auto simp: filter_id_conv)
  ultimately show ?thesis by (simp add: entries_order_def)
qed

lemma processFideRatings_files:
  assumes "fetch_lines env url = Inr (header # dataLines)"
  shows "\<exists>w'. processFideRatings env url rt w = Inr w'
           \<and> map fst (files w') = map fst (files w) @
               concat (map (\<lambda>fed. group_paths env fed rt)
                 (map fst (own_entries (group_lines header dataLines))))"
proof -
  let ?es = "own_entries (group_lines header dataLines)"
  have "\<forall>e \<in> set ?es. snd e \<noteq> []"
    by (auto simp: set_own_entries dest: group_lines_entries)
  from foldl_process_group_files [OF this, of env rt header w]
  show ?thesis
    by (simp add: processFideRatings_header [OF assms] comp_def)
qed

lemma index_federations_keys: "map fst (index_federations s) = sort (own_keys s)"
  by (simp add: index_federations_def comp_def)

text \<open>
  Claim C8, as amended. The listing page names the groups of the table in lexicographic
  order of their keys, each once, and the order is made when the page is generated, the
  last step of a run. The loop that writes the files of a dataset visits the groups in
  the order \<open>Object.entries\<close> gives them: first the keys that are array indices, in
  ascending numeric order, then the other keys in the order in which they first appear
  in the input lines. The files of the dataset are written in this order, group after
  group. Where no key is an array index, it is the order of first appearance.
\<close>

theorem listing_sorted_emission_in_property_order:
  "sorted (map fst (index_federations s))
   \<and> set (map fst (index_federations s)) = fst ` set s
   \<and> (\<forall>w. main env = Inr w \<longrightarrow>
         last (files w) = (IndexHtml, IndexPage ratingTypes (index_federations (fedSummary w))))
   \<and> map fst (own_entries (group_lines header dataLines))
       = sort_key digits_value (filter is_array_index
           (first_appearances (filter (\<lambda>k. k \<noteq> []) (map (line_fed header) dataLines))))
         @ filter (\<lambda>k. \<not> is_array_index k)
             (first_appearances (filter (\<lambda>k. k \<noteq> []) (map (line_fed header) dataLines)))
   \<and> (fetch_lines env url = Inr (header # dataLines) \<longrightarrow>
         (\<exists>w'. processFideRatings env url rt w0 = Inr w'
            \<and> map fst (files w') = map fst (files w0) @
                concat (map (\<lambda>fed. group_paths env fed rt)
                  (entries_order (first_appearances
                     (filter (\<lambda>k. k \<noteq> []) (map (line_fed header) dataLines)))))))
   \<and> ((\<forall>k \<in> fst ` set (group_lines header dataLines). \<not> is_array_index k) \<longrightarrow>
         map fst (own_entries (group_lines header dataLines))
           = first_appearances (filter (\<lambda>k. k \<noteq> []) (map (line_fed header) dataLines)))"
proof (intro conjI allI impI)
  show "sorted (map fst (index_federations s))"
    by (simp add: index_federations_keys)
  show "set (map fst (index_federations s)) = fst ` set s"
    by (simp add: index_federations_keys set_own_keys)
  show "map fst (own_entries (group_lines header dataLines))
       = sort_key digits_value (filter is_array_index
           (first_appearances (filter (\<lambda>k. k \<noteq> []) (map (line_fed header) dataLines))))
         @ filter (\<lambda>k. \<not> is_array_index k)
             (first_appearances (filter (\<lambda>k. k \<noteq> []) (map (line_fed header) dataLines)))"
    using own_entries_order [of header dataLines] by (simp add: entries_order_def)
next
  fix w assume "main env = Inr w"
  then show "last (files w) = (IndexHtml, IndexPage ratingTypes (index_federations (fedSummary w)))"
    by (rule main_index_page)
next
  assume "fetch_lines env url = Inr (header # dataLines)"
  from processFideRatings_files [OF this, of rt w0]
  show "\<exists>w'. processFideRatings env url rt w0 = Inr w'
            \<and> map fst (files w') = map fst (files w0) @
                concat (map (\<lambda>fed. group_paths env fed rt)
                  (entries_order (first_appearances
                     (filter (\<lambda>k. k \<noteq> []) (map (line_fed header) dataLines)))))"
    by (simp only: own_entries_order)
next
  assume "\<forall>k \<in> fst ` set (group_lines header dataLines). \<not> is_array_index k"
  then have "\<forall>k \<in> set (first_appearances
      (filter (\<lambda>k. k \<noteq> []) (map (line_fed header) dataLines))). \<not> is_array_index k"
    unfolding group_lines_keys [symmetric] by simp
  from entries_order_no_index [OF this]
  show "map fst (own_entries (group_lines header dataLines))
           = first_appearances (filter (\<lambda>k. k \<noteq> []) (map (line_fed header) dataLines))"
    by (simp add: own_entries_order)
qed

text \<open>
  Claim C8 as stated fails: for the lines of USA, ARG and USB in this order, the loop
  that writes the files visits USA, ARG, USB, which is not the lexicographic order.
\<close>

theorem emission_order_counterexample:
  "map fst (own_entries (group_lines (js ''Fed'') [js ''USA'', js ''ARG'', js ''USB'']))
     = [js ''USA'', js ''ARG'', js ''USB'']
   \<and> \<not> sorted (map fst (own_entries (group_lines (js ''Fed'') [js ''USA'', js ''ARG'', js ''USB''])))"
proof -
  have "map fst (own_entries (group_lines (js ''Fed'') [js ''USA'', js ''ARG'', js ''USB'']))
     = [js ''USA'', js ''ARG'', js ''USB'']"
    by (simp add: own_entries_def group_lines_def group_step_def line_fed_def fedStart_def
        fedEnd_def indexOf_def startsWith_def substring_def trim_def is_ws_def is_array_index_def
        is_digit_def js_def Let_def)
  moreover have "\<not> sorted [js ''USA'', js ''ARG'', js ''USB'']"
    by (simp add: js_def)
  ultimately show ?thesis by simp
qed

theorem listing_sorted_emission_in_property_order_witness:
  "sorted (map fst (index_federations [(js ''USA'', []), (js ''ARG'', [])]))
   \<and> map fst (index_federations [(js ''USA'', []), (js ''ARG'', [])]) = [js ''ARG'', js ''USA'']
   \<and> map fst (own_entries (group_lines (js ''Fed'') [js ''USA'', js ''ARG'', js ''USA'']))
       = [js ''USA'', js ''ARG'']
   \<and> map fst (own_entries (group_lines (js ''Fed'') [js ''USA'', js ''7'', js ''10'', js ''2'']))
       = [js ''2'', js ''7'', js ''10'', js ''USA'']
   \<and> (\<exists>w'. processFideRatings
              \<lparr>fetch_lines = \<lambda>url. Inr [js ''Fed'', js ''USA'', js ''7''], file_size = \<lambda>c. 0,
               floor_log = log1024, parquet_fails = \<lambda>fed rt. fed = js ''7'', data_exists = False\<rparr>
              [] (js ''blitz'')
              \<lparr>files = [], fedSummary = [], parquet_errors = [], data_dir = False\<rparr> = Inr w'
          \<and> map fst (files w') = group_files (js ''7'') (js ''blitz'')
              @ group_files (js ''USA'') (js ''blitz'')
              @ [DataFile (js ''USA'') (js ''blitz'') ParquetFile])"
proof -
  let ?h = "js ''Fed''" and ?ls = "[js ''USA'', js ''ARG'', js ''USA'']"
  define env0 :: env where
    "env0 = \<lparr>fetch_lines = \<lambda>url. Inr [js ''Fed'', js ''USA'', js ''7''], file_size = \<lambda>c. 0,
             floor_log = log1024, parquet_fails = \<lambda>fed rt. fed = js ''7'', data_exists = False\<rparr>"
  define w0 :: world where
    "w0 = \<lparr>files = [], fedSummary = [], parquet_errors = [], data_dir = False\<rparr>"
  note t = listing_sorted_emission_in_property_order
      [where s = "[(js ''USA'', []), (js ''ARG'', [])]" and header = ?h and dataLines = ?ls
         and env = env0 and url = "[]" and rt = "[]" and ?w0.0 = w0]
  have k: "line_fed ?h (js ''USA'') = js ''USA''" "line_fed ?h (js ''ARG'') = js ''ARG''"
    "line_fed ?h (js ''7'') = js ''7''" "line_fed ?h (js ''10'') = js ''10''"
    "line_fed ?h (js ''2'') = js ''2''"
    by (simp_all add: line_fed_def fedStart_def fedEnd_def indexOf_def startsWith_def
        substring_def trim_def is_ws_def js_def Let_def)
  have g: "group_lines ?h ?ls = [(js ''USA'', [js ''USA'', js ''USA'']), (js ''ARG'', [js ''ARG''])]"
    by (simp add: group_lines_def group_step_def k Let_def) (simp add: js_def)
  have h: "\<forall>k \<in> fst ` set (group_lines ?h ?ls). \<not> is_array_index k"
    unfolding g by (simp add: is_array_index_def is_digit_def js_def)
  have ix: "is_array_index (js ''7'')" "is_array_index (js ''10'')" "is_array_index (js ''2'')"
    "\<not> is_array_index (js ''USA'')"
    "digits_value (js ''7'') = 7" "digits_value (js ''10'') = 10" "digits_value (js ''2'') = 2"
    by (simp_all add: is_array_index_def digits_value_def is_digit_def js_def)
  have ne: "js ''USA'' \<noteq> []" "js ''7'' \<noteq> []" "js ''10'' \<noteq> []" "js ''2'' \<noteq> []"
    "js ''USA'' \<noteq> js ''7''" "js ''USA'' \<noteq> js ''10''" "js ''USA'' \<noteq> js ''2''"
    "js ''7'' \<noteq> js ''10''" "js ''7'' \<noteq> js ''2''" "js ''10'' \<noteq> js ''2''"
    "js ''7'' \<noteq> js ''USA''" "js ''10'' \<noteq> js ''USA''" "js ''2'' \<noteq> js ''USA''"
    "js ''10'' \<noteq> js ''7''" "js ''2'' \<noteq> js ''7''" "js ''2'' \<noteq> js ''10''"
    by (simp_all add: js_def)
  have 1: "sorted (map fst (index_federations [(js ''USA'', []), (js ''ARG'', [])]))"
    using t by blast
  have 2: "map fst (index_federations [(js ''USA'', []), (js ''ARG'', [])]) = [js ''ARG'', js ''USA'']"
    by (simp add: index_federations_keys own_keys_def own_entries_def is_array_index_def
        is_digit_def js_def)
  have "map fst (own_entries (group_lines ?h ?ls))
      = first_appearances (filter (\<lambda>k. k \<noteq> []) (map (line_fed ?h) ?ls))"
    using t h by blast
  then have 3: "map fst (own_entries (group_lines ?h ?ls)) = [js ''USA'', js ''ARG'']"
    by (simp add: k) (simp add: js_def)
  note t4 = listing_sorted_emission_in_property_order
      [where header = ?h and dataLines = "[js ''USA'', js ''7'', js ''10'', js ''2'']",
        THEN conjunct2, THEN conjunct2, THEN conjunct2, THEN conjunct1]
  have 4: "map fst (own_entries (group_lines ?h [js ''USA'', js ''7'', js ''10'', js ''2'']))
       = [js ''2'', js ''7'', js ''10'', js ''USA'']"
    unfolding t4 by (simp add: k ne ix)
  have f: "fetch_lines env0 [] = Inr (?h # [js ''USA'', js ''7''])"
    by (simp add: env0_def)
  note t5 = listing_sorted_emission_in_property_order
      [where header = ?h and dataLines = "[js ''USA'', js ''7'']" and env = env0
         and url = "[]" and rt = "js ''blitz''" and ?w0.0 = w0,
        THEN conjunct2, THEN conjunct2, THEN conjunct2, THEN conjunct2, THEN conjunct1,
        THEN mp, OF f]
  have o: "entries_order (first_appearances
      (filter (\<lambda>k. k \<noteq> []) (map (line_fed ?h) [js ''USA'', js ''7''])))
      = [js ''7'', js ''USA'']"
    by (simp add: entries_order_def k ne ix)
  have p: "group_paths env0 (js ''7'') (js ''blitz'') = group_files (js ''7'') (js ''blitz'')"
    "group_paths env0 (js ''USA'') (js ''blitz'')
       = group_files (js ''USA'') (js ''blitz'') @ [DataFile (js ''USA'') (js ''blitz'') ParquetFile]"
    by (simp_all add: group_paths_def env0_def ne)
  from t5 have 5: "\<exists>w'. processFideRatings env0 [] (js ''blitz'') w0 = Inr w'
      \<and> map fst (files w') = group_files (js ''7'') (js ''blitz'')
              @ group_files (js ''USA'') (js ''blitz'')
              @ [DataFile (js ''USA'') (js ''blitz'') ParquetFile]"
    unfolding o by (simp add: p w0_def)
  from 1 2 3 4 5 show ?thesis by (simp add: env0_def w0_def)
qed

section \<open>Properties of the Column Layout Extractor\<close>

lemma only_space_ws_drop: "only_space_ws s \<Longrightarrow> only_space_ws (drop n s)"
  unfolding only_space_ws_def by (meson in_set_dropD)

lemma only_space_ws_Cons: "only_space_ws (c # s) \<Longrightarrow> only_space_ws s"
  by (simp add: only_space_ws_def)

lemma is_ws_32: "is_ws 32"
  by (simp add: is_ws_def)

lemma lazy_spec: "only_space_ws s \<Longrightarrow> lazy_class s = Some (length (spec_token s))"
proof (induction s rule: spec_token.induct)
  case 1
  then show ?case by (simp add: lookahead_def)
next
  case (2 c)
  then show ?case by (auto simp: lookahead_def only_space_ws_def)
next
  case (3 a b r)
  from "3.prems" have ws: "is_ws a \<longrightarrow> a = 32" "is_ws b \<longrightarrow> b = 32"
    and os: "only_space_ws (b # r)"
    by (simp_all add: only_space_ws_def)
  show ?case
  proof (cases "a = 32 \<and> b = 32")
    case True
    then show ?thesis by (simp add: lookahead_def is_ws_32)
  next
    case False
    with ws have nl: "\<not> lookahead (a # b # r)" by (auto simp: lookahead_def)
    from ws have cls: "\<not> is_ws a \<or> a = 32" by blast
    from "3.IH" [OF False os] nl cls False show ?thesis by simp
  qed
qed

lemma spec_token_nonspace: "c \<noteq> 32 \<Longrightarrow> spec_token (c # cs) = c # spec_token cs"
  by (cases cs) simp_all

lemma exec_from_spaces:
  "only_space_ws s \<Longrightarrow>
     exec_from s i =
       (if dropWhile (\<lambda>c. c = 32) s = [] then None
        else Some (i + length (takeWhile (\<lambda>c. c = 32) s),
                   length (spec_token (dropWhile (\<lambda>c. c = 32) s))))"
proof (induction s arbitrary: i)
  case Nil
  then show ?case by simp
next
  case (Cons c cs)
  have os: "only_space_ws cs" using Cons.prems by (rule only_space_ws_Cons)
  show ?case
  proof (cases "c = 32")
    case True
    then have "match_here (c # cs) = None" by (simp add: is_ws_32)
    with Cons.IH [OF os, of "Suc i"] True show ?thesis
      by (simp del: dropWhile_eq_Nil_conv)
  next
    case False
    with Cons.prems have nws: "\<not> is_ws c" by (auto simp: only_space_ws_def)
    have "match_here (c # cs) = Some (Suc (length (spec_token cs)))"
      using nws lazy_spec [OF os] by simp
    with False show ?thesis by (simp add: spec_token_nonspace)
  qed
qed

lemma trim_space_Cons: "trim (32 # x) = trim x"
  by (simp add: trim_def is_ws_32)

lemma spec_tokens_Nil [simp]: "spec_tokens [] = []"
  by (subst spec_tokens.simps) simp

lemma spec_tokens_nonspace:
  assumes "c \<noteq> 32"
  shows "spec_tokens (c # cs) = spec_token (c # cs) # spec_tokens (drop (length (spec_token (c # cs))) (c # cs))"
  using assms by (subst spec_tokens.simps) (simp add: spec_token_nonspace)

lemma spec_tokens_spaces:
  assumes "\<forall>c \<in> set s. c = 32" "s \<noteq> [32]"
  shows "spec_tokens s = []"
proof (cases s)
  case Nil
  then show ?thesis by simp
next
  case (Cons a r)
  with assms obtain r' where s: "s = 32 # 32 # r'" by (cases r) auto
  have dw: "dropWhile (\<lambda>c. c = 32) s = []" using assms(1) by simp
  have st: "spec_token s = []" and ne: "s \<noteq> []" by (simp_all add: s)
  have "spec_tokens s = spec_tokens (dropWhile (\<lambda>c. c = 32) s)"
    using st ne by (subst spec_tokens.simps) simp
  then show ?thesis by (simp only: dw spec_tokens_Nil)
qed


lemma spec_tokens_step:
  assumes "dropWhile (\<lambda>c. c = 32) s = r" "r \<noteq> []"
  shows "\<exists>tok. spec_tokens s = tok # spec_tokens (drop (length (spec_token r)) r)
           \<and> trim tok = trim (spec_token r)"
proof -
  obtain c cs where r: "r = c # cs" using assms(2) by (cases r) auto
  have c: "c \<noteq> 32" using hd_dropWhile [of "\<lambda>c. c = 32" s] assms r by auto
  have base: "spec_tokens r = spec_token r # spec_tokens (drop (length (spec_token r)) r)"
    unfolding r using c by (rule spec_tokens_nonspace)
  show ?thesis
  proof (cases s)
    case Nil
    with assms show ?thesis by simp
  next
    case (Cons a s1)
    show ?thesis
    proof (cases "a = 32")
      case False
      with Cons assms(1) have "s = r" by simp
      with base show ?thesis by blast
    next
      case a: True
      show ?thesis
      proof (cases s1)
        case Nil
        with Cons a assms show ?thesis by simp
      next
        case s1: (Cons b s2)
        show ?thesis
        proof (cases "b = 32")
          case False
          with Cons a s1 assms(1) have sr: "s = 32 # r" by simp
          have tk: "spec_token s = 32 # spec_token r"
            unfolding sr r using c by simp
          have "spec_tokens s = spec_token s # spec_tokens (drop (length (spec_token s)) s)"
            using tk sr by (subst spec_tokens.simps) simp
          also have "drop (length (spec_token s)) s = drop (length (spec_token r)) r"
          proof -
            have "length (spec_token s) = Suc (length (spec_token r))" using tk by simp
            then have "drop (length (spec_token s)) s = drop (Suc (length (spec_token r))) s"
              by (rule arg_cong)
            also have "\<dots> = drop (length (spec_token r)) r" by (subst sr) simp
            finally show ?thesis .
          qed
          finally show ?thesis using tk by (auto simp: trim_space_Cons)
        next
          case True
          with Cons a s1 have s: "s = 32 # 32 # s2" by simp
          then have "spec_token s = []" "s \<noteq> []" by simp_all
          then have "spec_tokens s = spec_tokens (dropWhile (\<lambda>c. c = 32) s)"
            by (subst spec_tokens.simps) simp
          with assms(1) base show ?thesis by auto
        qed
      qed
    qed
  qed
qed

lemma columns_spec:
  "only_space_ws h \<Longrightarrow> lastIndex \<le> length h \<Longrightarrow> drop lastIndex h \<noteq> [32] \<Longrightarrow>
     map fst (column_matches h lastIndex) = map trim (spec_tokens (drop lastIndex h))"
proof (induction h lastIndex rule: column_matches.induct)
  case (1 header lastIndex)
  let ?s = "drop lastIndex header"
  let ?r = "dropWhile (\<lambda>c. c = 32) ?s"
  have os: "only_space_ws ?s" using "1.prems"(1) by (rule only_space_ws_drop)
  have ex: "colRegex_exec header lastIndex = exec_from ?s lastIndex"
    using "1.prems"(2) by (simp add: colRegex_exec_def)
  show ?case
  proof (cases "?r = []")
    case True
    then have "colRegex_exec header lastIndex = None"
      unfolding ex exec_from_spaces [OF os] by simp
    then have "column_matches header lastIndex = []"
      by (subst column_matches.simps) simp
    moreover have "\<forall>c \<in> set ?s. c = 32" using True by simp
    then have "spec_tokens ?s = []" using "1.prems"(3) by (rule spec_tokens_spaces)
    ultimately show ?thesis by simp
  next
    case False
    let ?k = "length (takeWhile (\<lambda>c. c = 32) ?s)"
    let ?n = "length (spec_token ?r)"
    let ?index = "lastIndex + ?k"
    have e: "colRegex_exec header lastIndex = Some (?index, ?n)"
      unfolding ex exec_from_spaces [OF os] using False by simp
    have dr: "drop ?index header = ?r"
      by (simp add: dropWhile_eq_drop add.commute)
    have label: "trim (take ?n (drop ?index header)) = trim (spec_token ?r)"
      unfolding dr by (simp only: spec_token_prefix)
    have nxt: "drop (?index + ?n) header = drop ?n ?r"
      using dr by (metis add.commute drop_drop)
    have b: "?index + ?n \<le> length header"
      using colRegex_exec_bounds [OF e] by simp
    have ne: "drop (?index + ?n) header \<noteq> [32]"
      unfolding nxt using spec_token_rest [of ?r] by auto
    have IH: "map fst (column_matches header (?index + ?n))
        = map trim (spec_tokens (drop (?index + ?n) header))"
      using "1.IH" [OF e refl "1.prems"(1) b ne] .
    have cm: "column_matches header lastIndex
        = (trim (take ?n (drop ?index header)), ?index) # column_matches header (?index + ?n)"
      using e by (subst column_matches.simps) simp
    from spec_tokens_step [OF refl False]
    obtain tok where tok: "spec_tokens ?s = tok # spec_tokens (drop ?n ?r)"
      "trim tok = trim (spec_token ?r)" by blast
    show ?thesis
      unfolding cm tok(1) using IH label tok(2) nxt by simp
  qed
qed


lemma column_matches_bounds:
  "e \<in> set (column_matches h lastIndex) \<Longrightarrow> lastIndex \<le> snd e \<and> snd e < length h"
proof (induction h lastIndex rule: column_matches.induct)
  case (1 header lastIndex)
  show ?case
  proof (cases "colRegex_exec header lastIndex")
    case None
    then have "column_matches header lastIndex = []"
      by (subst column_matches.simps) simp
    with "1.prems" show ?thesis by simp
  next
    case (Some x)
    obtain index n where x: "x = (index, n)" by (cases x)
    note e = Some [unfolded x]
    note b = colRegex_exec_bounds [OF e]
    have cm: "column_matches header lastIndex
        = (trim (take n (drop index header)), index) # column_matches header (index + n)"
      using e by (subst column_matches.simps) simp
    from "1.prems" [unfolded cm]
    consider "snd e = index" | "e \<in> set (column_matches header (index + n))" by auto
    then show ?thesis
    proof cases
      case 1
      with b show ?thesis by simp
    next
      case 2
      from "1.IH" [OF e refl 2] b show ?thesis by simp
    qed
  qed
qed

lemma column_matches_sorted: "sorted_wrt (<) (map snd (column_matches h lastIndex))"
proof (induction h lastIndex rule: column_matches.induct)
  case (1 header lastIndex)
  show ?case
  proof (cases "colRegex_exec header lastIndex")
    case None
    then have "column_matches header lastIndex = []"
      by (subst column_matches.simps) simp
    then show ?thesis by simp
  next
    case (Some x)
    obtain index n where x: "x = (index, n)" by (cases x)
    note e = Some [unfolded x]
    note b = colRegex_exec_bounds [OF e]
    have cm: "column_matches header lastIndex
        = (trim (take n (drop index header)), index) # column_matches header (index + n)"
      using e by (subst column_matches.simps) simp
    have "index < snd e'" if "e' \<in> set (column_matches header (index + n))" for e'
      using column_matches_bounds [OF that] b by simp
    with "1.IH" [OF e refl] show ?thesis unfolding cm by auto
  qed
qed

lemma exec_from_start:
  "exec_from s i = Some (j, n) \<Longrightarrow> \<exists>c cs. drop (j - i) s = c # cs \<and> \<not> is_ws c"
proof (induction s arbitrary: i)
  case Nil
  then show ?case by simp
next
  case (Cons c cs)
  show ?case
  proof (cases "match_here (c # cs)")
    case None
    with Cons.prems have e: "exec_from cs (Suc i) = Some (j, n)" by simp
    from exec_from_bounds [OF e] have "Suc i \<le> j" by simp
    then have "j - i = Suc (j - Suc i)" by simp
    with Cons.IH [OF e] show ?thesis by simp
  next
    case (Some m)
    with Cons.prems have "j = i" by simp
    moreover from Some have "\<not> is_ws c" by (simp split: if_splits)
    ultimately show ?thesis by simp
  qed
qed

lemma trim_nonws_Cons:
  assumes "\<not> is_ws c"
  shows "\<exists>k. trim (c # x) = c # take k x"
proof -
  have "dropWhile is_ws (rev x @ [c]) = dropWhile is_ws (rev x) @ [c]"
    using assms by (induction "rev x" arbitrary: x) (auto simp: dropWhile_append)
  then have t: "trim (c # x) = c # rev (dropWhile is_ws (rev x))"
    using assms by (simp add: trim_def)
  have "rev x = takeWhile is_ws (rev x) @ dropWhile is_ws (rev x)" by simp
  then have "x = rev (dropWhile is_ws (rev x)) @ rev (takeWhile is_ws (rev x))"
    by (metis rev_append rev_rev_ident)
  then have "rev (dropWhile is_ws (rev x)) = take (length (dropWhile is_ws (rev x))) x"
    by (metis append_eq_conv_conj length_rev)
  with t show ?thesis by metis
qed

lemma column_matches_labels:
  "e \<in> set (column_matches h lastIndex) \<Longrightarrow>
     fst e \<noteq> [] \<and> take (length (fst e)) (drop (snd e) h) = fst e"
proof (induction h lastIndex rule: column_matches.induct)
  case (1 header lastIndex)
  show ?case
  proof (cases "colRegex_exec header lastIndex")
    case None
    then have "column_matches header lastIndex = []"
      by (subst column_matches.simps) simp
    with "1.prems" show ?thesis by simp
  next
    case (Some x)
    obtain index n where x: "x = (index, n)" by (cases x)
    note e = Some [unfolded x]
    note b = colRegex_exec_bounds [OF e]
    have cm: "column_matches header lastIndex
        = (trim (take n (drop index header)), index) # column_matches header (index + n)"
      using e by (subst column_matches.simps) simp
    from "1.prems" [unfolded cm]
    consider "e = (trim (take n (drop index header)), index)"
      | "e \<in> set (column_matches header (index + n))" by auto
    then show ?thesis
    proof cases
      case 1
      have "exec_from (drop lastIndex header) lastIndex = Some (index, n)"
        using e by (simp add: colRegex_exec_def split: if_splits)
      from exec_from_start [OF this] obtain c cs where
        d: "drop (index - lastIndex) (drop lastIndex header) = c # cs" and c: "\<not> is_ws c" by blast
      have dh: "drop index header = c # cs" using d b by simp
      obtain n' where n': "n = Suc n'" using b by (cases n) auto
      from trim_nonws_Cons [OF c, of "take n' cs"] obtain k where
        k: "trim (c # take n' cs) = c # take k (take n' cs)" by blast
      have l: "fst e = c # take (min k n') cs"
        unfolding 1 dh n' using k by simp
      have "c # cs = (c # take (min k n') cs) @ drop (min k n') cs" by simp
      then have "take (length (c # take (min k n') cs)) (c # cs) = c # take (min k n') cs"
        by (metis append_eq_conv_conj)
      moreover have "drop (snd e) header = c # cs" using 1 dh by simp
      ultimately show ?thesis unfolding l by simp
    next
      case 2
      from "1.IH" [OF e refl 2] show ?thesis .
    qed
  qed
qed

lemma has_separator_not_single: "has_separator h \<Longrightarrow> h \<noteq> [32]"
  by auto


text \<open>
  Claim C1, as amended. For every header the start offsets are strictly ascending, the
  final end offset is the length of the header, and each label is not empty and stands
  in the header at its start offset. For a header with a run of two or more spaces whose
  only whitespace characters are spaces, the labels are the maximal tokens between the
  runs of two or more spaces, each trimmed of the single space it may start or end with.
\<close>

theorem layout_of_header:
  "sorted_wrt (<) (colPositions_of h)
   \<and> last (colPositions_of h) = length h
   \<and> length (colPositions_of h) = Suc (length (columns_of h))
   \<and> (\<forall>i < length (columns_of h).
         columns_of h ! i \<noteq> []
         \<and> take (length (columns_of h ! i)) (drop (colPositions_of h ! i) h) = columns_of h ! i)
   \<and> (has_separator h \<longrightarrow> only_space_ws h \<longrightarrow> columns_of h = map trim (spec_tokens h))"
proof (intro conjI allI impI)
  have "\<forall>x \<in> set (map snd (column_matches h 0)). x < length h"
    using column_matches_bounds [of _ h 0] by auto
  then show "sorted_wrt (<) (colPositions_of h)"
    using column_matches_sorted [of h 0]
    by (simp add: colPositions_of_def sorted_wrt_append)
  show "last (colPositions_of h) = length h"
    by (simp add: colPositions_of_def)
  show "length (colPositions_of h) = Suc (length (columns_of h))"
    by (simp add: colPositions_of_def columns_of_def)
next
  fix i assume i: "i < length (columns_of h)"
  then have il: "i < length (column_matches h 0)" by (simp add: columns_of_def)
  then have mem: "column_matches h 0 ! i \<in> set (column_matches h 0)" by simp
  have c: "columns_of h ! i = fst (column_matches h 0 ! i)"
    using il by (simp add: columns_of_def)
  have p: "colPositions_of h ! i = snd (column_matches h 0 ! i)"
    using il by (simp add: colPositions_of_def nth_append)
  from column_matches_labels [OF mem]
  show "columns_of h ! i \<noteq> []"
    and "take (length (columns_of h ! i)) (drop (colPositions_of h ! i) h) = columns_of h ! i"
    unfolding c p by simp_all
next
  assume "has_separator h" "only_space_ws h"
  then show "columns_of h = map trim (spec_tokens h)"
    using columns_spec [of h 0] has_separator_not_single [of h]
    by (simp add: columns_of_def)
qed

theorem layout_of_header_witness:
  "has_separator (js ''Fed Sex Tit   Name '')
   \<and> only_space_ws (js ''Fed Sex Tit   Name '')
   \<and> spec_tokens (js ''Fed Sex Tit   Name '') = [js ''Fed Sex Tit'', js ''Name '']
   \<and> columns_of (js ''Fed Sex Tit   Name '') = [js ''Fed Sex Tit'', js ''Name'']
   \<and> colPositions_of (js ''Fed Sex Tit   Name '') = [0, 14, 19]"
proof -
  let ?h = "js ''Fed Sex Tit   Name ''"
  have h1: "has_separator ?h" by (simp add: js_def)
  have h2: "only_space_ws ?h" by (simp add: only_space_ws_def js_def is_ws_def)
  have st: "spec_tokens ?h = [js ''Fed Sex Tit'', js ''Name '']"
    by (simp add: spec_tokens.simps js_def)
  have "columns_of ?h = map trim (spec_tokens ?h)"
    using layout_of_header [of ?h] h1 h2 by blast
  then have c: "columns_of ?h = [js ''Fed Sex Tit'', js ''Name'']"
    unfolding st by (simp add: trim_def is_ws_def js_def)
  have p: "colPositions_of ?h = [0, 14, 19]"
    by (simp add: colPositions_of_def column_matches.simps colRegex_exec_def lookahead_def
        is_ws_def js_def)
  from h1 h2 st c p show ?thesis by simp
qed

text \<open>
  Claim C1 as stated fails: in the header \<open>A<TAB>B  C\<close> the tokens between the runs of
  spaces are \<open>A<TAB>B\<close> and \<open>C\<close>, and the labels are \<open>B\<close> and \<open>C\<close>: a tab is whitespace
  outside the class \<open>[\S ]\<close>, so no match starts at \<open>A\<close>. And in the header
  \<open> A  B \<close>, with spaces only, the tokens are \<open> A\<close> and \<open>B \<close>, and the labels are
  \<open>A\<close> and \<open>B\<close>, trimmed.
\<close>

theorem layout_tab_counterexample:
  "has_separator [65, 9, 66, 32, 32, 67]
   \<and> spec_tokens [65, 9, 66, 32, 32, 67] = [[65, 9, 66], [67]]
   \<and> map trim (spec_tokens [65, 9, 66, 32, 32, 67]) = [[65, 9, 66], [67]]
   \<and> columns_of [65, 9, 66, 32, 32, 67] = [[66], [67]]
   \<and> columns_of [65, 9, 66, 32, 32, 67] \<noteq> spec_tokens [65, 9, 66, 32, 32, 67]
   \<and> has_separator (js '' A  B '')
   \<and> spec_tokens (js '' A  B '') = [js '' A'', js ''B '']
   \<and> columns_of (js '' A  B '') = [js ''A'', js ''B'']"
proof -
  have st: "spec_tokens [65, 9, 66, 32, 32, 67] = [[65, 9, 66], [67]]"
    by (simp add: spec_tokens.simps)
  have c: "columns_of [65, 9, 66, 32, 32, 67] = [[66], [67]]"
    by (simp add: columns_of_def column_matches.simps colRegex_exec_def lookahead_def
        is_ws_def trim_def)
  have st2: "spec_tokens (js '' A  B '') = [js '' A'', js ''B '']"
    by (simp add: spec_tokens.simps js_def)
  have c2: "columns_of (js '' A  B '') = [js ''A'', js ''B'']"
    by (simp add: columns_of_def column_matches.simps colRegex_exec_def lookahead_def
        is_ws_def trim_def js_def)
  have h2: "has_separator (js '' A  B '')" by (simp add: js_def)
  show ?thesis unfolding st c st2 c2 using h2 by (simp add: trim_def is_ws_def)
qed

end
